theory Spec2Isabelle
  imports Main
begin

section \<open>Upload queue controller (frontend/src/app/services/upload.service.ts)\<close>

subsection \<open>Data model (models/upload.model.ts)\<close>

text \<open>
  The browser \<open>File\<close> handed to the service: its name, its size in bytes and the
  content type declared by the client.
\<close>

record File =
  name :: string
  size' :: nat
  type' :: string

datatype status = Pending | Uploading | Success | Failed

text \<open>
  \<open>FileUpload\<close> as \<open>addFilesToQueue\<close> builds it. The display-only fields
  (\<open>sizeMB\<close>, \<open>filename\<close>, \<open>uploadedAt\<close>, \<open>downloadUrl\<close>) are never read by
  the queue logic and are left out. \<open>file\<close> is optional in the interface, and
  \<open>startSingleUpload\<close> tests it.
\<close>

record FileUpload =
  id' :: string
  originalName :: string
  fsize :: nat
  mimetype :: string
  status :: status
  progress :: nat
  error :: "string option"
  file' :: "File option"

text \<open>\<open>activeUploads\<close> and \<open>maxConcurrent\<close> are JavaScript numbers: integers here.\<close>

record UploadQueue =
  files :: "FileUpload list"
  activeUploads :: int
  maxConcurrent :: int

text \<open>
  The reasons \<open>validateFile\<close> gives. The source formats each into a message:
  \<open>SizeExceeded n\<close> is "File size (n/1048576 MB) exceeds the 10MB limit",
  \<open>TypeNotAllowed e\<close> is "File type '.e' is not allowed. Allowed types: pdf, docx, txt"
  (\<open>e\<close> is \<open>None\<close> when the extension is \<open>undefined\<close>), and \<open>NameTooLong\<close> is
  "Filename is too long (maximum 255 characters)".
\<close>

datatype reason = SizeExceeded nat | TypeNotAllowed "string option" | NameTooLong

record validation =
  isValid :: bool
  verror :: "reason option"

text \<open>The body of an upload response, as far as the subscriber reads it:
  \<open>results.successCount\<close> and the \<open>error\<close> of each entry of \<open>results.failed\<close>.\<close>

record UploadResponse =
  successCount :: int
  failed :: "string list"

text \<open>An error object, as far as the handlers read it: \<open>error.status\<close> (absent on
  a plain \<open>Error\<close>), \<open>error.error?.message\<close> and \<open>error.message\<close>.\<close>

record HttpError =
  errStatus :: "int option"
  bodyMessage :: "string option"
  errMessage :: "string option"

text \<open>
  The service: the current value of \<open>uploadQueueSubject\<close>, every value pushed
  through \<open>uploadQueueSubject.next\<close> (oldest first), the upload requests issued
  (task ids, oldest first), the number of \<open>uploadCompleteSubject.next()\<close> calls, and
  each \<open>alert\<close> of rejected candidates (file name and reason). The per-task stream
  \<open>uploads$\<close>, which repeats what the queue stream shows, is left out.
\<close>

record UploadService =
  queue :: UploadQueue
  emitted :: "UploadQueue list"
  requests :: "string list"
  completed :: nat
  alerts :: "(string \<times> reason) list list"

definition MAX_CONCURRENT_UPLOADS :: int where
  "MAX_CONCURRENT_UPLOADS = 3"

definition ALLOWED_FILE_TYPES :: "string list" where
  "ALLOWED_FILE_TYPES = [''pdf'', ''docx'', ''txt'']"

definition MAX_FILE_SIZE :: nat where
  "MAX_FILE_SIZE = 100 * 1024 * 1024"

definition initialQueue :: UploadQueue where
  "initialQueue = \<lparr>files = [], activeUploads = 0, maxConcurrent = MAX_CONCURRENT_UPLOADS\<rparr>"

definition initialService :: UploadService where
  "initialService =
     \<lparr>queue = initialQueue, emitted = [initialQueue], requests = [], completed = 0,
      alerts = []\<rparr>"

text \<open>\<open>uploadQueueSubject.next(q)\<close>: \<open>q\<close> becomes the current value and is observed.\<close>

definition next_queue :: "UploadQueue \<Rightarrow> UploadService \<Rightarrow> UploadService" where
  "next_queue q s = s\<lparr>queue := q, emitted := emitted s @ [q]\<rparr>"

subsection \<open>Validation\<close>

text \<open>\<open>name.split('.')\<close>: the segments between dots, never an empty list.\<close>

fun split_dot :: "string \<Rightarrow> string list" where
  "split_dot [] = [[]]"
| "split_dot (c # cs) =
     (if c = CHR ''.'' then [] # split_dot cs
      else (case split_dot cs of
              [] \<Rightarrow> [[c]]
            | seg # segs \<Rightarrow> (c # seg) # segs))"

text \<open>\<open>toLowerCase\<close> on the ASCII letters; no other character lowers to a letter of
  an allowed extension.\<close>

definition lower_char :: "char \<Rightarrow> char" where
  "lower_char c =
     (case map_of (zip ''ABCDEFGHIJKLMNOPQRSTUVWXYZ'' ''abcdefghijklmnopqrstuvwxyz'') c of
        None \<Rightarrow> c
      | Some d \<Rightarrow> d)"

definition toLowerCase :: "string \<Rightarrow> string" where
  "toLowerCase s = map lower_char s"

text \<open>\<open>file.name.split('.').pop()?.toLowerCase()\<close>\<close>

definition fileExtension :: "File \<Rightarrow> string option" where
  "fileExtension f =
     (case split_dot (name f) of
        [] \<Rightarrow> None
      | segs \<Rightarrow> Some (toLowerCase (last segs)))"

text \<open>A string is falsy in JavaScript exactly when it is empty.\<close>

definition falsy :: "string option \<Rightarrow> bool" where
  "falsy x = (case x of None \<Rightarrow> True | Some s \<Rightarrow> s = [])"

definition validateFile :: "File \<Rightarrow> validation" where
  "validateFile f =
     (if size' f > MAX_FILE_SIZE then
        \<lparr>isValid = False, verror = Some (SizeExceeded (size' f))\<rparr>
      else if falsy (fileExtension f) \<or> the (fileExtension f) \<notin> set ALLOWED_FILE_TYPES then
        \<lparr>isValid = False, verror = Some (TypeNotAllowed (fileExtension f))\<rparr>
      else if length (name f) > 255 then
        \<lparr>isValid = False, verror = Some NameTooLong\<rparr>
      else \<lparr>isValid = True, verror = None\<rparr>)"

subsection \<open>Queue bookkeeping\<close>

text \<open>\<open>findIndex(f => f.id === fileId)\<close>: the first position, or \<open>None\<close> for -1.\<close>

fun findIndex :: "string \<Rightarrow> FileUpload list \<Rightarrow> nat option" where
  "findIndex i [] = None"
| "findIndex i (f # fs) =
     (if id' f = i then Some 0 else map_option Suc (findIndex i fs))"

text \<open>\<open>error || queue.files[fileIndex].error\<close>\<close>

definition or_error :: "string option \<Rightarrow> string option \<Rightarrow> string option" where
  "or_error e old = (if falsy e then old else e)"

definition updateFileStatus ::
  "string \<Rightarrow> status \<Rightarrow> string option \<Rightarrow> UploadService \<Rightarrow> UploadService" where
  "updateFileStatus fileId st e s =
     (let q = queue s in
      case findIndex fileId (files q) of
        None \<Rightarrow> s
      | Some k \<Rightarrow>
          next_queue
            (q\<lparr>files := (files q)[k := (files q ! k)\<lparr>status := st,
                  error := or_error e (error (files q ! k))\<rparr>]\<rparr>) s)"

definition updateFileProgress :: "string \<Rightarrow> nat \<Rightarrow> UploadService \<Rightarrow> UploadService" where
  "updateFileProgress fileId p s =
     (let q = queue s in
      case findIndex fileId (files q) of
        None \<Rightarrow> s
      | Some k \<Rightarrow>
          next_queue (q\<lparr>files := (files q)[k := (files q ! k)\<lparr>progress := p\<rparr>]\<rparr>) s)"

definition removeFromQueue :: "string \<Rightarrow> UploadService \<Rightarrow> UploadService" where
  "removeFromQueue fileId s =
     next_queue ((queue s)\<lparr>files := filter (\<lambda>f. id' f \<noteq> fileId) (files (queue s))\<rparr>) s"

definition incrementActiveUploads :: "UploadService \<Rightarrow> UploadService" where
  "incrementActiveUploads s =
     next_queue ((queue s)\<lparr>activeUploads := activeUploads (queue s) + 1\<rparr>) s"

definition decrementActiveUploads :: "UploadService \<Rightarrow> UploadService" where
  "decrementActiveUploads s =
     next_queue ((queue s)\<lparr>activeUploads := max 0 (activeUploads (queue s) - 1)\<rparr>) s"

definition getErrorMessage :: "HttpError \<Rightarrow> string" where
  "getErrorMessage e =
     (if \<not> falsy (bodyMessage e) then the (bodyMessage e)
      else if \<not> falsy (errMessage e) then the (errMessage e)
      else ''An unknown error occurred'')"

subsection \<open>Operations\<close>

text \<open>
  \<open>addFilesToQueue\<close>: each candidate comes with the string \<open>generateId()\<close> returns
  for it (a time stamp and a random number in the source). Valid candidates become
  pending tasks appended in input order; the rejected ones are reported in one
  \<open>alert\<close>. The scheduler is not called.
\<close>

definition mkFileUpload :: "File \<times> string \<Rightarrow> FileUpload" where
  "mkFileUpload c =
     \<lparr>id' = snd c, originalName = name (fst c), fsize = size' (fst c),
      mimetype = type' (fst c), status = Pending, progress = 0, error = None,
      file' = Some (fst c)\<rparr>"

definition validFiles :: "(File \<times> string) list \<Rightarrow> FileUpload list" where
  "validFiles cs = map mkFileUpload (filter (\<lambda>c. isValid (validateFile (fst c))) cs)"

definition errors :: "(File \<times> string) list \<Rightarrow> (string \<times> reason) list" where
  "errors cs =
     map (\<lambda>c. (name (fst c), the (verror (validateFile (fst c)))))
       (filter (\<lambda>c. \<not> isValid (validateFile (fst c))) cs)"

definition addFilesToQueue ::
  "(File \<times> string) list \<Rightarrow> UploadService \<Rightarrow> FileUpload list \<times> UploadService" where
  "addFilesToQueue cs s =
     (let s1 = (if errors cs \<noteq> [] then s\<lparr>alerts := alerts s @ [errors cs]\<rparr> else s);
          q = queue s1
      in (validFiles cs, next_queue (q\<lparr>files := files q @ validFiles cs\<rparr>) s1))"

text \<open>
  \<open>startSingleUpload\<close>, up to the point where the request is sent: a task without a
  file is marked failed; otherwise the task is marked uploading, the counter is
  incremented and one request is issued. The HTTP events arrive later, as events of
  their own.
\<close>

definition startSingleUpload :: "FileUpload \<Rightarrow> UploadService \<Rightarrow> UploadService" where
  "startSingleUpload fu s =
     (case file' fu of
        None \<Rightarrow> updateFileStatus (id' fu) Failed (Some ''File object is missing'') s
      | Some f \<Rightarrow>
          (let s1 = updateFileStatus (id' fu) Uploading None s;
               s2 = incrementActiveUploads s1
           in s2\<lparr>requests := requests s2 @ [id' fu]\<rparr>))"

text \<open>
  \<open>processUploadQueue\<close>: the pending tasks and the number of free slots are read
  once; the first \<open>canStartMore\<close> pending tasks are then started in order.
\<close>

definition processUploadQueue :: "UploadService \<Rightarrow> UploadService" where
  "processUploadQueue s =
     (let q = queue s;
          pendingFiles = filter (\<lambda>f. status f = Pending) (files q);
          canStartMore = maxConcurrent q - activeUploads q
      in if canStartMore > 0 \<and> length pendingFiles > 0
         then foldl (\<lambda>t fu. startSingleUpload fu t) s (take (nat canStartMore) pendingFiles)
         else s)"

definition startAllUploads :: "UploadService \<Rightarrow> UploadService" where
  "startAllUploads s = processUploadQueue s"

definition startUploadById :: "string \<Rightarrow> UploadService \<Rightarrow> UploadService" where
  "startUploadById fileId s =
     (case find (\<lambda>f. id' f = fileId \<and> status f = Pending) (files (queue s)) of
        None \<Rightarrow> s
      | Some fu \<Rightarrow> startSingleUpload fu s)"

definition cancelUpload :: "string \<Rightarrow> UploadService \<Rightarrow> UploadService" where
  "cancelUpload fileId s = removeFromQueue fileId s"

text \<open>
  \<open>cancelAllUploads\<close>: every pending or uploading task of the queue as read at entry
  is first marked failed (one lookup by id each), then the queue is replaced by the
  empty one with the counter at 0.
\<close>

definition cancelAllUploads :: "UploadService \<Rightarrow> UploadService" where
  "cancelAllUploads s =
     (let s1 = foldl (\<lambda>t f. if status f = Pending \<or> status f = Uploading
                             then updateFileStatus (id' f) Failed (Some ''Cancelled by user'') t
                             else t) s (files (queue s))
      in next_queue \<lparr>files = [], activeUploads = 0, maxConcurrent = MAX_CONCURRENT_UPLOADS\<rparr> s1)"

text \<open>
  \<open>retryUpload\<close> writes the fields of the found task in place: the current value of
  the subject changes, nothing is pushed to the observers.
\<close>

definition retryUpload :: "string \<Rightarrow> UploadService \<Rightarrow> UploadService" where
  "retryUpload fileId s =
     (let q = queue s in
      case findIndex fileId (files q) of
        None \<Rightarrow> s
      | Some k \<Rightarrow>
          if status (files q ! k) = Failed
          then processUploadQueue
                 (s\<lparr>queue := q\<lparr>files := (files q)[k := (files q ! k)\<lparr>status := Pending,
                       progress := 0, error := None\<rparr>]\<rparr>\<rparr>)
          else s)"

definition clearCompletedUploads :: "UploadService \<Rightarrow> UploadService" where
  "clearCompletedUploads s =
     next_queue ((queue s)\<lparr>files :=
        filter (\<lambda>f. status f = Pending \<or> status f = Uploading) (files (queue s))\<rparr>) s"

subsection \<open>HTTP events of an upload request\<close>

text \<open>\<open>Math.round(100 * loaded / total)\<close>, halves rounded up; only when \<open>total\<close> is
  truthy.\<close>

definition onProgress :: "string \<Rightarrow> nat \<Rightarrow> nat \<Rightarrow> UploadService \<Rightarrow> UploadService" where
  "onProgress fileId loaded tot s =
     (if tot \<noteq> 0 then updateFileProgress fileId ((200 * loaded + tot) div (2 * tot)) s
      else s)"

text \<open>The subscriber's \<open>next\<close> on the \<open>HttpResponse\<close> of the request of task
  \<open>fileId\<close>.\<close>

definition onResponse :: "string \<Rightarrow> UploadResponse \<Rightarrow> UploadService \<Rightarrow> UploadService" where
  "onResponse fileId r s =
     (let s1 = (if successCount r > 0
                then (let t = updateFileStatus fileId Success None s
                      in t\<lparr>completed := completed t + 1\<rparr>)
                else updateFileStatus fileId Failed
                       (Some (case failed r of
                                [] \<Rightarrow> ''Upload failed''
                              | e # _ \<Rightarrow> if e = [] then ''Upload failed'' else e)) s)
      in processUploadQueue (decrementActiveUploads s1))"

text \<open>\<open>handleUploadError\<close>, the handler inside \<open>catchError\<close>; it rethrows.\<close>

definition handleUploadError :: "string \<Rightarrow> HttpError \<Rightarrow> UploadService \<Rightarrow> UploadService" where
  "handleUploadError fileId e s =
     processUploadQueue
       (decrementActiveUploads (updateFileStatus fileId Failed (Some (getErrorMessage e)) s))"

text \<open>
  A failing request: \<open>catchError\<close> runs \<open>handleUploadError\<close>, which rethrows the
  error, and the rethrown error reaches the subscriber's \<open>error\<close> callback, which
  marks, decrements and schedules once more.
\<close>

definition onError :: "string \<Rightarrow> HttpError \<Rightarrow> UploadService \<Rightarrow> UploadService" where
  "onError fileId e s =
     (let s1 = handleUploadError fileId e s
      in processUploadQueue
           (decrementActiveUploads
              (updateFileStatus fileId Failed (Some (getErrorMessage e)) s1)))"

subsection \<open>Runs of the service\<close>

datatype event =
    AddFiles "(File \<times> string) list"
  | StartAll
  | StartById string
  | Cancel string
  | CancelAll
  | Retry string
  | ClearCompleted
  | HttpProgress string nat nat
  | HttpResponse string UploadResponse
  | HttpFailure string HttpError

fun step :: "UploadService \<Rightarrow> event \<Rightarrow> UploadService" where
  "step s (AddFiles cs) = snd (addFilesToQueue cs s)"
| "step s StartAll = startAllUploads s"
| "step s (StartById i) = startUploadById i s"
| "step s (Cancel i) = cancelUpload i s"
| "step s CancelAll = cancelAllUploads s"
| "step s (Retry i) = retryUpload i s"
| "step s ClearCompleted = clearCompletedUploads s"
| "step s (HttpProgress i l t) = onProgress i l t s"
| "step s (HttpResponse i r) = onResponse i r s"
| "step s (HttpFailure i e) = onError i e s"

definition run :: "UploadService \<Rightarrow> event list \<Rightarrow> UploadService" where
  "run s evs = foldl step s evs"

section \<open>Token lifecycle (frontend/src/app/services/auth.service.ts)\<close>

subsection \<open>Data model (models/auth.model.ts)\<close>

record User =
  userId :: int
  username :: string
  email :: string
  role :: string

record LoginRequest =
  identifier' :: string
  password :: string

record LoginResponse =
  message :: string
  accessToken :: string
  refreshToken :: string
  user :: User
  expiresIn :: string

text \<open>The requests the service sends to \<open>/auth/login\<close>, \<open>/auth/refresh\<close> and
  \<open>/auth/logout\<close>, the last two with the refresh token of their body.\<close>

datatype AuthPost = LoginPost LoginRequest | RefreshPost string | LogoutPost string

subsection \<open>JavaScript values of a token payload\<close>

text \<open>
  Numbers are integers or \<open>NaN\<close> (fractions, infinities and rounding are left out).
  A value is what \<open>JSON.parse\<close> can return, and \<open>undefined\<close> for a property that
  is not there.
\<close>

datatype jsnum = NaN | Num int

datatype jsval =
    JUndefined
  | JNull
  | JBool bool
  | JNumber jsnum
  | JString string
  | JArray "jsval list"
  | JObject "(string \<times> jsval) list"

text \<open>
  What the browser provides and the repository does not define:
  \<open>decode x\<close> is \<open>JSON.parse(atob(x))\<close>, \<open>None\<close> when either throws;
  \<open>toNumberOther v\<close> is the number the language converts a string, an array or an
  object to.
\<close>

record platform =
  decode :: "string \<Rightarrow> jsval option"
  toNumberOther :: "jsval \<Rightarrow> jsnum"

text \<open>\<open>v.exp\<close>: a \<open>TypeError\<close> (\<open>None\<close>) on \<open>null\<close> and \<open>undefined\<close>, the
  property of an object, \<open>undefined\<close> on everything else.\<close>

fun getExp :: "jsval \<Rightarrow> jsval option" where
  "getExp JNull = None"
| "getExp JUndefined = None"
| "getExp (JObject kvs) =
     Some (case map_of kvs ''exp'' of None \<Rightarrow> JUndefined | Some v \<Rightarrow> v)"
| "getExp v = Some JUndefined"

text \<open>The conversion to a number that \<open>*\<close> applies to its operand.\<close>

fun toNumber :: "platform \<Rightarrow> jsval \<Rightarrow> jsnum" where
  "toNumber pf JUndefined = NaN"
| "toNumber pf JNull = Num 0"
| "toNumber pf (JBool b) = Num (if b then 1 else 0)"
| "toNumber pf (JNumber n) = n"
| "toNumber pf v = toNumberOther pf v"

fun times' :: "jsnum \<Rightarrow> jsnum \<Rightarrow> jsnum" where
  "times' (Num a) (Num b) = Num (a * b)"
| "times' a b = NaN"

fun minus' :: "jsnum \<Rightarrow> jsnum \<Rightarrow> jsnum" where
  "minus' (Num a) (Num b) = Num (a - b)"
| "minus' a b = NaN"

text \<open>\<open>Math.max\<close> is \<open>NaN\<close> as soon as one argument is.\<close>

fun max' :: "jsnum \<Rightarrow> jsnum \<Rightarrow> jsnum" where
  "max' (Num a) (Num b) = Num (max a b)"
| "max' a b = NaN"

text \<open>\<open>a >= b\<close> is false as soon as one side is \<open>NaN\<close>.\<close>

fun ge' :: "jsnum \<Rightarrow> jsnum \<Rightarrow> bool" where
  "ge' (Num a) (Num b) = (a \<ge> b)"
| "ge' a b = False"

subsection \<open>The service\<close>

text \<open>
  The three entries of \<open>localStorage\<close> (the user record stands for its JSON text),
  the current values of the two subjects, the refresh timer (the delay of the last
  \<open>setTimeout\<close> stored in \<open>refreshTokenTimer\<close>, and whether that timeout is still
  pending), the requests sent so far and the number of navigations to \<open>/login\<close>.
\<close>

record AuthService =
  access_token :: "string option"
  refresh_token :: "string option"
  user_data :: "User option"
  currentUserSubject :: "User option"
  isAuthenticatedSubject :: bool
  refreshTokenTimer :: "jsnum option"
  timerPending :: bool
  posts :: "AuthPost list"
  navigations :: nat

text \<open>The service as its constructor leaves it on an empty store.\<close>

definition initialAuth :: AuthService where
  "initialAuth =
     \<lparr>access_token = None, refresh_token = None, user_data = None,
      currentUserSubject = None, isAuthenticatedSubject = False,
      refreshTokenTimer = None, timerPending = False, posts = [], navigations = 0\<rparr>"

definition getAccessToken :: "AuthService \<Rightarrow> string option" where
  "getAccessToken s = access_token s"

definition getRefreshToken :: "AuthService \<Rightarrow> string option" where
  "getRefreshToken s = refresh_token s"

definition clearTokens :: "AuthService \<Rightarrow> AuthService" where
  "clearTokens s = s\<lparr>access_token := None, refresh_token := None, user_data := None\<rparr>"

text \<open>
  \<open>logout\<close>: the stored entries are removed, both subjects are reset, a timer that
  was ever set is cleared, the refresh token read at entry is sent to
  \<open>/auth/logout\<close> when there is one, and the router goes to \<open>/login\<close>.
\<close>

definition logout :: "AuthService \<Rightarrow> AuthService" where
  "logout s =
     (let rt = getRefreshToken s;
          s1 = (clearTokens s)\<lparr>currentUserSubject := None, isAuthenticatedSubject := False\<rparr>;
          s2 = (if refreshTokenTimer s1 \<noteq> None then s1\<lparr>timerPending := False\<rparr> else s1);
          s3 = (if \<not> falsy rt then s2\<lparr>posts := posts s2 @ [LogoutPost (the rt)]\<rparr> else s2)
      in s3\<lparr>navigations := navigations s3 + 1\<rparr>)"

text \<open>
  \<open>JSON.parse(atob(token.split('.')[1])).exp\<close>, with \<open>None\<close> for every exception.
  A token without a second segment hands \<open>undefined\<close> to \<open>atob\<close>, which reads it as
  the text "undefined".
\<close>

definition payloadExp :: "platform \<Rightarrow> string \<Rightarrow> jsval option" where
  "payloadExp pf token =
     (let segs = split_dot token;
          seg = (if 1 < length segs then segs ! 1 else ''undefined'')
      in case decode pf seg of
           None \<Rightarrow> None
         | Some payload \<Rightarrow> getExp payload)"

definition isTokenExpired :: "platform \<Rightarrow> int \<Rightarrow> string \<Rightarrow> bool" where
  "isTokenExpired pf now token =
     (case payloadExp pf token of
        None \<Rightarrow> True
      | Some e \<Rightarrow> ge' (Num now) (times' (toNumber pf e) (Num 1000)))"

text \<open>\<open>isAuthenticated\<close>: \<open>!!token && !this.isTokenExpired(token)\<close>, at the time
  \<open>now\<close> that \<open>Date.now()\<close> returns.\<close>

definition isAuthenticated :: "platform \<Rightarrow> int \<Rightarrow> AuthService \<Rightarrow> bool" where
  "isAuthenticated pf now s =
     (\<not> falsy (getAccessToken s) \<and> \<not> isTokenExpired pf now (the (getAccessToken s)))"

text \<open>
  \<open>scheduleTokenRefresh\<close>: nothing without a token; \<open>logout\<close> when the payload cannot
  be read; otherwise the pending timeout is replaced by one that fires two minutes
  before the expiry.
\<close>

definition scheduleTokenRefresh :: "platform \<Rightarrow> int \<Rightarrow> AuthService \<Rightarrow> AuthService" where
  "scheduleTokenRefresh pf now s =
     (if falsy (getAccessToken s) then s
      else case payloadExp pf (the (getAccessToken s)) of
             None \<Rightarrow> logout s
           | Some e \<Rightarrow>
               (let expiryTime = times' (toNumber pf e) (Num 1000);
                    timeUntilExpiry = minus' expiryTime (Num now);
                    refreshTime = max' (Num 0) (minus' timeUntilExpiry (Num (2 * 60 * 1000)))
                in s\<lparr>refreshTokenTimer := Some refreshTime, timerPending := True\<rparr>))"

definition handleAuthSuccess ::
  "platform \<Rightarrow> int \<Rightarrow> LoginResponse \<Rightarrow> AuthService \<Rightarrow> AuthService" where
  "handleAuthSuccess pf now r s =
     scheduleTokenRefresh pf now
       (s\<lparr>access_token := Some (accessToken r), refresh_token := Some (refreshToken r),
          user_data := Some (user r), currentUserSubject := Some (user r),
          isAuthenticatedSubject := True\<rparr>)"

text \<open>\<open>handleError\<close>: a 401 logs out; the error is rethrown as it came.\<close>

definition handleError :: "HttpError \<Rightarrow> AuthService \<Rightarrow> AuthService" where
  "handleError e s = (if errStatus e = Some 401 then logout s else s)"

section \<open>Request authorization (frontend/src/app/interceptors/auth.interceptor.ts)\<close>

text \<open>
  \<open>app.module.ts\<close> registers \<open>AuthInterceptor\<close> under \<open>HTTP_INTERCEPTORS\<close>: every
  request that \<open>HttpClient\<close> sends passes \<open>intercept\<close>, the requests of
  \<open>AuthService\<close> included.

  A request is an API request, named by a number, the POST to \<open>/auth/login\<close> that
  \<open>AuthService.login\<close> sends with its credentials, or the POST to \<open>/auth/refresh\<close>
  that \<open>AuthService.refreshToken\<close> sends: it carries the refresh token of its body
  and the request whose 401 made the interceptor call \<open>refreshToken\<close> (\<open>None\<close> when
  the service called it itself, from the refresh timer).
\<close>

datatype request = Api nat | Login LoginRequest | Refresh string "request option"

text \<open>What the caller of a request gets: the request is sent again with a token by
  the 401 path, it fails with an error, or, for a login request, the response body
  arrives.\<close>

datatype outcome = Resent string | Rejected HttpError | Answered LoginResponse

text \<open>
  A refresh request in flight. It is \<open>guarded\<close> when it went through \<open>intercept\<close>
  with an access token in the store: \<open>intercept\<close> then sends its 401 to
  \<open>handle401Error\<close> like the 401 of any other request. It is \<open>rescued\<close> when
  \<open>handle401Error\<close> sent it again after the refresh it had started for it: an error
  of that second sending passes the \<open>catchError\<close> of \<open>handle401Error\<close> first.
\<close>

record inflight_call =
  call :: request
  guarded :: bool
  rescued :: bool

text \<open>
  The interceptor and the service it uses: the flag, the current value of
  \<open>refreshTokenSubject\<close>, the requests suspended on that subject, the refresh
  requests in flight and the outcomes handed to callers so far.
\<close>

record Client =
  auth :: AuthService
  isRefreshing :: bool
  refreshTokenSubject :: "string option"
  waiting :: "request list"
  inflight :: "inflight_call list"
  delivered :: "(request \<times> outcome) list"

definition noRefreshToken :: HttpError where
  "noRefreshToken =
     \<lparr>errStatus = None, bodyMessage = None, errMessage = Some ''No refresh token available''\<rparr>"

text \<open>
  \<open>next.handle(this.addTokenToRequest(request, token))\<close>: the request goes to the
  rest of the chain, not through this interceptor again. What comes back for a
  re-sent API request is outside the model; the answer to a login request sent again
  is \<open>login_response\<close> below.
\<close>

fun resend :: "request \<Rightarrow> string \<Rightarrow> Client \<Rightarrow> Client" where
  "resend (Api n) t c = c\<lparr>delivered := delivered c @ [(Api n, Resent t)]\<rparr>"
| "resend (Login cr) t c =
     c\<lparr>auth := (auth c)\<lparr>posts := posts (auth c) @ [LoginPost cr]\<rparr>,
       delivered := delivered c @ [(Login cr, Resent t)]\<rparr>"
| "resend (Refresh rt origin) t c =
     c\<lparr>auth := (auth c)\<lparr>posts := posts (auth c) @ [RefreshPost rt]\<rparr>,
       inflight := inflight c @
         [\<lparr>call = Refresh rt origin, guarded = False, rescued = False\<rparr>]\<rparr>"

text \<open>The same call inside the \<open>switchMap\<close> of \<open>handle401Error\<close>, for the request
  that started the refresh.\<close>

fun retry_original :: "request \<Rightarrow> string \<Rightarrow> Client \<Rightarrow> Client" where
  "retry_original (Api n) t c = c\<lparr>delivered := delivered c @ [(Api n, Resent t)]\<rparr>"
| "retry_original (Login cr) t c =
     c\<lparr>auth := (auth c)\<lparr>posts := posts (auth c) @ [LoginPost cr]\<rparr>,
       delivered := delivered c @ [(Login cr, Resent t)]\<rparr>"
| "retry_original (Refresh rt origin) t c =
     c\<lparr>auth := (auth c)\<lparr>posts := posts (auth c) @ [RefreshPost rt]\<rparr>,
       inflight := inflight c @
         [\<lparr>call = Refresh rt origin, guarded = False, rescued = True\<rparr>]\<rparr>"

text \<open>
  \<open>refreshTokenSubject.next(v)\<close>: \<open>null\<close> is filtered out by every waiting
  request; a token releases all of them, each taking that one value.
\<close>

definition next_token :: "string option \<Rightarrow> Client \<Rightarrow> Client" where
  "next_token v c =
     (case v of
        None \<Rightarrow> c\<lparr>refreshTokenSubject := None\<rparr>
      | Some t \<Rightarrow>
          foldl (\<lambda>d r. resend r t d) (c\<lparr>refreshTokenSubject := Some t, waiting := []\<rparr>)
            (waiting c))"

text \<open>
  Failure. \<open>fail r e\<close>: the observable of request \<open>r\<close> ends with the error \<open>e\<close>.
  For a login request the error passes \<open>catchError(this.handleError)\<close> of
  \<open>AuthService.login\<close> on its way to the caller. For a refresh request it is the
  error inside \<open>AuthService.refreshToken\<close>.
  \<open>refreshThrows origin e\<close>: \<open>refreshToken\<close> logs out and rethrows; when the
  interceptor subscribed for a request, its \<open>catchError\<close> resets the flag, logs out
  once more and rethrows to that request.
\<close>

fun fail :: "request \<Rightarrow> HttpError \<Rightarrow> Client \<Rightarrow> Client"
  and refreshThrows :: "request option \<Rightarrow> HttpError \<Rightarrow> Client \<Rightarrow> Client" where
  "fail (Api n) e c = c\<lparr>delivered := delivered c @ [(Api n, Rejected e)]\<rparr>"
| "fail (Login cr) e c =
     c\<lparr>auth := handleError e (auth c), delivered := delivered c @ [(Login cr, Rejected e)]\<rparr>"
| "fail (Refresh rt origin) e c = refreshThrows origin e c"
| "refreshThrows None e c = c\<lparr>auth := logout (auth c)\<rparr>"
| "refreshThrows (Some r) e c =
     fail r e (c\<lparr>auth := logout (logout (auth c)), isRefreshing := False\<rparr>)"

text \<open>
  \<open>AuthService.refreshToken()\<close>, subscribed for \<open>origin\<close>: without a refresh token
  it logs out and throws; otherwise the request is sent.
\<close>

definition refreshToken_call :: "request option \<Rightarrow> Client \<Rightarrow> Client" where
  "refreshToken_call origin c =
     (let rt = getRefreshToken (auth c)
      in if falsy rt then refreshThrows origin noRefreshToken c
         else c\<lparr>auth := (auth c)\<lparr>posts := posts (auth c) @ [RefreshPost (the rt)]\<rparr>,
                inflight := inflight c @
                  [\<lparr>call = Refresh (the rt) origin,
                    guarded = (\<not> falsy (getAccessToken (auth c))),
                    rescued = False\<rparr>]\<rparr>)"

definition handle401Error :: "request \<Rightarrow> Client \<Rightarrow> Client" where
  "handle401Error r c =
     (if \<not> isRefreshing c then
        (let c1 = next_token None (c\<lparr>isRefreshing := True\<rparr>);
             rt = getRefreshToken (auth c1)
         in if \<not> falsy rt then refreshToken_call (Some r) c1
            else fail r noRefreshToken (c1\<lparr>isRefreshing := False, auth := logout (auth c1)\<rparr>))
      else (case refreshTokenSubject c of
              Some t \<Rightarrow> resend r t c
            | None \<Rightarrow> c\<lparr>waiting := waiting c @ [r]\<rparr>))"

text \<open>
  Success of a login or refresh request at time \<open>now\<close>: \<open>handleAuthSuccess\<close> stores
  the session. The login response goes on to the caller. For a refresh request to
  which the interceptor subscribed, the interceptor resets the flag, pushes the new
  access token to the subject and sends the original request again.
\<close>

fun succeed :: "platform \<Rightarrow> int \<Rightarrow> request \<Rightarrow> LoginResponse \<Rightarrow> Client \<Rightarrow> Client" where
  "succeed pf now (Api n) r c = c"
| "succeed pf now (Login cr) r c =
     c\<lparr>auth := handleAuthSuccess pf now r (auth c),
       delivered := delivered c @ [(Login cr, Answered r)]\<rparr>"
| "succeed pf now (Refresh rt None) r c = c\<lparr>auth := handleAuthSuccess pf now r (auth c)\<rparr>"
| "succeed pf now (Refresh rt (Some q)) r c =
     retry_original q (accessToken r)
       (next_token (Some (accessToken r))
          (c\<lparr>auth := handleAuthSuccess pf now r (auth c), isRefreshing := False\<rparr>))"

text \<open>
  Events: the 401 of an API request that was sent with a token; the refresh timer;
  the result, at a time, of the refresh request at a position of \<open>inflight\<close>.
\<close>

datatype client_event =
    Unauthorized nat
  | TimerFires
  | RefreshResult nat int "HttpError + LoginResponse"

fun client_step :: "platform \<Rightarrow> Client \<Rightarrow> client_event \<Rightarrow> Client" where
  "client_step pf c (Unauthorized n) = handle401Error (Api n) c"
| "client_step pf c TimerFires =
     (if timerPending (auth c)
      then refreshToken_call None (c\<lparr>auth := (auth c)\<lparr>timerPending := False\<rparr>\<rparr>)
      else c)"
| "client_step pf c (RefreshResult k now res) =
     (if k < length (inflight c) then
        (let x = inflight c ! k;
             c1 = c\<lparr>inflight := take k (inflight c) @ drop (Suc k) (inflight c)\<rparr>
         in case res of
              Inr r \<Rightarrow> succeed pf now (call x) r c1
            | Inl e \<Rightarrow>
                if guarded x \<and> errStatus e = Some 401 then handle401Error (call x) c1
                else if rescued x
                then fail (call x) e (c1\<lparr>isRefreshing := False, auth := logout (auth c1)\<rparr>)
                else fail (call x) e c1)
      else c)"

definition client_run :: "platform \<Rightarrow> Client \<Rightarrow> client_event list \<Rightarrow> Client" where
  "client_run pf c evs = foldl (client_step pf) c evs"

text \<open>The refresh requests among the requests sent.\<close>

definition refreshPosts :: "Client \<Rightarrow> AuthPost list" where
  "refreshPosts c =
     filter (\<lambda>p. case p of RefreshPost t \<Rightarrow> True | _ \<Rightarrow> False) (posts (auth c))"

subsection \<open>Login through the interceptor\<close>

text \<open>
  \<open>AuthService.login\<close>, subscribed: the POST to \<open>/auth/login\<close> passes \<open>intercept\<close>,
  which reads the access token of the store and attaches it when there is one. The
  first component is the request in flight: it is guarded when a token was attached.
\<close>

definition login :: "LoginRequest \<Rightarrow> Client \<Rightarrow> inflight_call \<times> Client" where
  "login credentials c =
     (\<lparr>call = Login credentials, guarded = (\<not> falsy (getAccessToken (auth c))),
       rescued = False\<rparr>,
      c\<lparr>auth := (auth c)\<lparr>posts := posts (auth c) @ [LoginPost credentials]\<rparr>\<rparr>)"

text \<open>
  The answer of the server, at time \<open>now\<close>, to a login request in flight: the request
  as \<open>login\<close> sent it, or the request that the interceptor has sent again (not
  guarded; rescued when \<open>handle401Error\<close> sent it again after the refresh it had
  started for it). A response body goes through the \<open>tap\<close> of \<open>login\<close>. An error
  meets the \<open>catchError\<close> of \<open>intercept\<close> first, which sends the 401 of a guarded
  request to \<open>handle401Error\<close>; the error of a rescued request passes the
  \<open>catchError\<close> of \<open>handle401Error\<close>, which resets the flag and logs out; every
  error that is rethrown reaches the \<open>catchError(this.handleError)\<close> of \<open>login\<close>.
\<close>

definition login_response ::
  "platform \<Rightarrow> int \<Rightarrow> inflight_call \<Rightarrow> HttpError + LoginResponse \<Rightarrow> Client \<Rightarrow> Client" where
  "login_response pf now x res c =
     (case res of
        Inr r \<Rightarrow> succeed pf now (call x) r c
      | Inl e \<Rightarrow>
          if guarded x \<and> errStatus e = Some 401 then handle401Error (call x) c
          else if rescued x
          then fail (call x) e (c\<lparr>isRefreshing := False, auth := logout (auth c)\<rparr>)
          else fail (call x) e c)"

text \<open>The interceptor and the service as their constructors leave them on an empty
  store.\<close>

definition initialClient :: Client where
  "initialClient =
     \<lparr>auth = initialAuth, isRefreshing = False, refreshTokenSubject = None, waiting = [],
      inflight = [], delivered = []\<rparr>"

section \<open>Properties: definitions\<close>

subsection \<open>Reading the queue\<close>

text \<open>
  The task ids in queue order, the ids of the pending tasks in queue order, the number
  of free slots as \<open>processUploadQueue\<close> computes it, the queue in which the tasks
  named in a list have been marked uploading, the number of tasks marked uploading and
  the status of the task with a given id.
\<close>

definition ids :: "UploadService \<Rightarrow> string list" where
  "ids s = map id' (files (queue s))"

definition pendingIds :: "UploadService \<Rightarrow> string list" where
  "pendingIds s = map id' (filter (\<lambda>f. status f = Pending) (files (queue s)))"

definition slots :: "UploadService \<Rightarrow> nat" where
  "slots s = nat (maxConcurrent (queue s) - activeUploads (queue s))"

definition mark :: "string list \<Rightarrow> FileUpload list \<Rightarrow> FileUpload list" where
  "mark P fs = map (\<lambda>f. if id' f \<in> set P then f\<lparr>status := Uploading\<rparr> else f) fs"

definition uploading :: "UploadService \<Rightarrow> nat" where
  "uploading s = length (filter (\<lambda>f. status f = Uploading) (files (queue s)))"

definition statusOf :: "UploadService \<Rightarrow> string \<Rightarrow> status option" where
  "statusOf s i = map_option status (find (\<lambda>f. id' f = i) (files (queue s)))"

text \<open>The second admission rule of \<open>validateFile\<close>, read on its own.\<close>

definition ext_not_allowed :: "File \<Rightarrow> bool" where
  "ext_not_allowed f =
     (falsy (fileExtension f) \<or> the (fileExtension f) \<notin> set ALLOWED_FILE_TYPES)"

text \<open>The service after the status update that the subscriber makes on a response,
  before the counter is decremented.\<close>

definition settled :: "string \<Rightarrow> UploadResponse \<Rightarrow> UploadService \<Rightarrow> UploadService" where
  "settled i r s =
     (if successCount r > 0
      then (updateFileStatus i Success None s)\<lparr>completed := completed (updateFileStatus i Success None s) + 1\<rparr>
      else updateFileStatus i Failed
             (Some (case failed r of
                      [] \<Rightarrow> ''Upload failed''
                    | e # _ \<Rightarrow> if e = [] then ''Upload failed'' else e)) s)"

subsection \<open>Invariants\<close>

text \<open>
  A service is well formed when its task ids are pairwise different and every task
  carries its file, as every task built by \<open>addFilesToQueue\<close> does.
\<close>

definition wellformed :: "UploadService \<Rightarrow> bool" where
  "wellformed s = (distinct (ids s) \<and> (\<forall>f \<in> set (files (queue s)). file' f \<noteq> None))"

text \<open>The counter is at least 0, now and in every value pushed to the observers.\<close>

definition nonneg :: "UploadService \<Rightarrow> bool" where
  "nonneg s = (0 \<le> activeUploads (queue s) \<and> (\<forall>q \<in> set (emitted s). 0 \<le> activeUploads q))"

text \<open>The counter is within \<open>maxConcurrent\<close>, which is 3, now and in every value
  pushed to the observers.\<close>

definition bounded :: "UploadService \<Rightarrow> bool" where
  "bounded s =
     (activeUploads (queue s) \<le> maxConcurrent (queue s) \<and> maxConcurrent (queue s) = 3 \<and>
      (\<forall>q \<in> set (emitted s). activeUploads q \<le> maxConcurrent q \<and> maxConcurrent q = 3))"

text \<open>
  The runs in which \<open>startUploadById\<close> is called only while a slot is free. Every
  other operation and every HTTP event is allowed at any time.
\<close>

fun within_limit :: "UploadService \<Rightarrow> event \<Rightarrow> bool" where
  "within_limit s (StartById i) = (activeUploads (queue s) < maxConcurrent (queue s))"
| "within_limit s (AddFiles cs) = True"
| "within_limit s StartAll = True"
| "within_limit s (Cancel i) = True"
| "within_limit s CancelAll = True"
| "within_limit s (Retry i) = True"
| "within_limit s ClearCompleted = True"
| "within_limit s (HttpProgress i l t) = True"
| "within_limit s (HttpResponse i r) = True"
| "within_limit s (HttpFailure i e) = True"

fun within_limit_run :: "UploadService \<Rightarrow> event list \<Rightarrow> bool" where
  "within_limit_run s [] = True"
| "within_limit_run s (e # es) = (within_limit s e \<and> within_limit_run (step s e) es)"

text \<open>On a well-formed service, the counter equals the number of tasks uploading.\<close>

definition tracking :: "UploadService \<Rightarrow> bool" where
  "tracking s = (wellformed s \<and> activeUploads (queue s) = int (uploading s))"

text \<open>
  The runs in which the counter is given back by the task it was taken for: candidates
  come with fresh ids, \<open>cancelUpload\<close> is not called on a task that is uploading, and
  the requests that end do so with a response while their task is uploading (no error
  of the transport). \<open>startUploadById\<close> is allowed at any time.
\<close>

fun tracked :: "UploadService \<Rightarrow> event \<Rightarrow> bool" where
  "tracked s (AddFiles cs) =
     (distinct (map snd cs) \<and> (\<forall>c \<in> set cs. snd c \<notin> set (ids s)))"
| "tracked s StartAll = True"
| "tracked s (StartById i) = True"
| "tracked s (Cancel i) = (statusOf s i \<noteq> Some Uploading)"
| "tracked s CancelAll = True"
| "tracked s (Retry i) = True"
| "tracked s ClearCompleted = True"
| "tracked s (HttpProgress i l t) = True"
| "tracked s (HttpResponse i r) = (statusOf s i = Some Uploading)"
| "tracked s (HttpFailure i e) = False"

fun tracked_run :: "UploadService \<Rightarrow> event list \<Rightarrow> bool" where
  "tracked_run s [] = True"
| "tracked_run s (e # es) = (tracked s e \<and> tracked_run (step s e) es)"

text \<open>
  The events that can start an upload: the three operations that call the scheduler or
  \<open>startSingleUpload\<close>, and the two ways a request ends. The ids of the tasks
  uploading, and the free slots the scheduler finds once the counter has been
  decremented.
\<close>

fun may_start :: "event \<Rightarrow> bool" where
  "may_start StartAll = True"
| "may_start (StartById i) = True"
| "may_start (Retry i) = True"
| "may_start (HttpResponse i r) = True"
| "may_start (HttpFailure i e) = True"
| "may_start (AddFiles cs) = False"
| "may_start (Cancel i) = False"
| "may_start CancelAll = False"
| "may_start ClearCompleted = False"
| "may_start (HttpProgress i l t) = False"

definition uploadingIds :: "UploadService \<Rightarrow> string list" where
  "uploadingIds s = map id' (filter (\<lambda>f. status f = Uploading) (files (queue s)))"

definition freed :: "UploadService \<Rightarrow> nat" where
  "freed s = nat (maxConcurrent (queue s) - max 0 (activeUploads (queue s) - 1))"

subsection \<open>Files, responses and services used as examples\<close>

text \<open>A valid document of 1 KB under a given name, five of them with their ids, and a
  candidate of 101 MB with the extension \<open>exe\<close>.\<close>

definition doc :: "string \<Rightarrow> File" where
  "doc n = \<lparr>name = n, size' = 1024, type' = ''application/pdf''\<rparr>"

definition five_files :: "(File \<times> string) list" where
  "five_files =
     [(doc ''a.pdf'', ''t1''), (doc ''b.pdf'', ''t2''), (doc ''c.txt'', ''t3''),
      (doc ''d.docx'', ''t4''), (doc ''e.pdf'', ''t5'')]"

definition big_exe :: File where
  "big_exe = \<lparr>name = ''malicious.exe'', size' = 101 * 1024 * 1024, type' = ''application/x-msdownload''\<rparr>"

text \<open>A response that reports one stored file, and an error of the transport.\<close>

definition ok_response :: UploadResponse where
  "ok_response = \<lparr>successCount = 1, failed = []\<rparr>"

definition network_down :: HttpError where
  "network_down = \<lparr>errStatus = Some 0, bodyMessage = None, errMessage = Some ''Network error''\<rparr>"

text \<open>One valid candidate admitted into the initial service; the same, started and
  then cancelled while its request is in flight.\<close>

definition one_admitted :: UploadService where
  "one_admitted = snd (addFilesToQueue [(doc ''a.pdf'', ''t1'')] initialService)"

definition one_cancelled :: UploadService where
  "one_cancelled = run one_admitted [StartAll, Cancel ''t1'']"

text \<open>The five documents admitted into the initial service; the same after
  \<open>startAllUploads\<close>.\<close>

definition five_pending :: UploadService where
  "five_pending = run initialService [AddFiles five_files]"

definition three_running :: UploadService where
  "three_running = run five_pending [StartAll]"

text \<open>The five documents admitted, and the first of them started by hand.\<close>

definition one_by_hand :: UploadService where
  "one_by_hand = run five_pending [StartById ''t1'']"

text \<open>
  Runs from the initial service. One file is admitted and started, everything is
  cancelled, and the abandoned request then fails: both decrements of the failure path
  meet a counter already at 0. The five documents are admitted and started, and the
  first response arrives. The five documents are admitted and four of them are started
  one by one. The five documents are admitted, two are started by hand, one of them is
  cancelled, the rest is started and the request of the other fails in transport.
\<close>

definition late_failure_run :: "event list" where
  "late_failure_run =
     [AddFiles [(doc ''a.pdf'', ''t1'')], StartAll, CancelAll, HttpFailure ''t1'' network_down]"

definition backfill_run :: "event list" where
  "backfill_run = [AddFiles five_files, StartAll, HttpResponse ''t1'' ok_response]"

definition over_limit_run :: "event list" where
  "over_limit_run =
     [AddFiles five_files, StartById ''t1'', StartById ''t2'', StartById ''t3'', StartById ''t4'']"

definition mixed_run :: "event list" where
  "mixed_run =
     [AddFiles five_files, StartById ''t1'', StartById ''t2'', Cancel ''t1'', StartAll,
      HttpFailure ''t2'' network_down]"

subsection \<open>Sessions used as examples\<close>

text \<open>A platform that decodes three payloads: \<open>{}\<close>, \<open>{"sub":1}\<close> and \<open>{"exp":1000}\<close>.\<close>

definition jwt_platform :: platform where
  "jwt_platform =
     \<lparr>decode = (\<lambda>x. if x = ''e30'' then Some (JObject [])
                    else if x = ''eyJzdWIiOjF9'' then Some (JObject [(''sub'', JNumber (Num 1))])
                    else if x = ''eyJleHAiOjEwMDB9'' then Some (JObject [(''exp'', JNumber (Num 1000))])
                    else None),
      toNumberOther = (\<lambda>v. NaN)\<rparr>"

text \<open>A login response whose access token expires at second 1000, the session that
  a login answered with it at time 0 creates from the initial service, and two errors
  of the server.\<close>

definition session_response :: LoginResponse where
  "session_response =
     \<lparr>message = ''Login successful'', accessToken = ''h.eyJleHAiOjEwMDB9.s'',
      refreshToken = ''r1'',
      user = \<lparr>userId = 1, username = ''testuser'', email = ''test@example.com'', role = ''user''\<rparr>,
      expiresIn = ''15m''\<rparr>"

definition test_login :: LoginRequest where
  "test_login = \<lparr>identifier' = ''testuser'', password = ''password123''\<rparr>"

definition signed_in :: AuthService where
  "signed_in =
     auth (login_response jwt_platform 0 (fst (login test_login initialClient))
             (Inr session_response) (snd (login test_login initialClient)))"

definition unauthorized :: HttpError where
  "unauthorized =
     \<lparr>errStatus = Some 401, bodyMessage = Some ''Invalid credentials'', errMessage = None\<rparr>"

definition server_error :: HttpError where
  "server_error =
     \<lparr>errStatus = Some 500, bodyMessage = Some ''Internal server error'', errMessage = None\<rparr>"



subsection \<open>The interceptor on its own\<close>

text \<open>The client of the signed-in session, nothing in flight.\<close>

definition signed_in_client :: Client where
  "signed_in_client =
     \<lparr>auth = signed_in, isRefreshing = False, refreshTokenSubject = None, waiting = [],
      inflight = [], delivered = []\<rparr>"

text \<open>
  While that session lasts, a login with a wrong password: the client after the server
  has answered the request with 401 at time 5. The login request as the interceptor
  sends it again after a refresh it started for it.
\<close>

definition wrong_password :: LoginRequest where
  "wrong_password = \<lparr>identifier' = ''testuser'', password = ''wrong''\<rparr>"

definition login_refused :: Client where
  "login_refused =
     login_response jwt_platform 5 (fst (login wrong_password signed_in_client))
       (Inl unauthorized) (snd (login wrong_password signed_in_client))"

definition sent_again :: inflight_call where
  "sent_again = \<lparr>call = Login wrong_password, guarded = False, rescued = True\<rparr>"

text \<open>The response of a successful refresh.\<close>

definition renewed_response :: LoginResponse where
  "renewed_response =
     \<lparr>message = ''Token refreshed successfully'', accessToken = ''h.eyJleHAiOjEwMDB9.t'',
      refreshToken = ''r2'', user = user session_response, expiresIn = ''15m''\<rparr>"

text \<open>
  The states the interceptor reaches on its own, without the refresh timer: the subject
  holds no token while the flag is set, and either no refresh request is in flight (and
  only API requests wait unless the flag is stuck), or exactly one is, started for an
  API request under the flag, with API requests waiting behind it.
\<close>

definition is_api :: "request \<Rightarrow> bool" where
  "is_api r = (case r of Api n \<Rightarrow> True | _ \<Rightarrow> False)"

definition started_for_api :: "request \<Rightarrow> bool" where
  "started_for_api r =
     (case r of
        Refresh rt (Some (Api n)) \<Rightarrow> True
      | _ \<Rightarrow> False)"

definition one_in_flight :: "Client \<Rightarrow> bool" where
  "one_in_flight c =
     (length (inflight c) = 1 \<and> started_for_api (call (hd (inflight c))) \<and>
      isRefreshing c \<and> refreshTokenSubject c = None \<and> list_all is_api (waiting c))"

definition single_flight :: "Client \<Rightarrow> bool" where
  "single_flight c =
     ((isRefreshing c \<longrightarrow> refreshTokenSubject c = None) \<and>
      ((inflight c = [] \<and> (\<not> isRefreshing c \<longrightarrow> list_all is_api (waiting c)))
       \<or> one_in_flight c))"


text \<open>
  A request involves the API request \<open>m\<close> when it is that request or a refresh
  request started, directly or through other refresh requests, for it. The API request
  \<open>m\<close> is out of reach of every failure when no refresh request in flight involves
  it, the waiting requests that involve it are \<open>m\<close> itself, and no failure has been
  handed to it.
\<close>

fun involves :: "nat \<Rightarrow> request \<Rightarrow> bool" where
  "involves m (Api n) = (n = m)"
| "involves m (Login cr) = False"
| "involves m (Refresh rt None) = False"
| "involves m (Refresh rt (Some r)) = involves m r"

definition never_rejected :: "nat \<Rightarrow> Client \<Rightarrow> bool" where
  "never_rejected m c =
     ((\<forall>x \<in> set (inflight c). \<not> involves m (call x)) \<and>
      (\<forall>r \<in> set (waiting c). r = Api m \<or> \<not> involves m r) \<and>
      (\<forall>e. (Api m, Rejected e) \<notin> set (delivered c)))"


section \<open>Upload queue: proofs\<close>

text \<open>The definitions unfolded when a run is evaluated on a concrete input.\<close>

lemmas upload_defs =
  run_def initialService_def initialQueue_def MAX_CONCURRENT_UPLOADS_def
  ALLOWED_FILE_TYPES_def MAX_FILE_SIZE_def next_queue_def
  toLowerCase_def lower_char_def fileExtension_def falsy_def validateFile_def
  or_error_def updateFileStatus_def updateFileProgress_def removeFromQueue_def
  incrementActiveUploads_def decrementActiveUploads_def getErrorMessage_def
  mkFileUpload_def validFiles_def errors_def addFilesToQueue_def startSingleUpload_def
  processUploadQueue_def startAllUploads_def startUploadById_def cancelUpload_def
  cancelAllUploads_def retryUpload_def clearCompletedUploads_def onProgress_def
  onResponse_def handleUploadError_def onError_def Let_def


lemmas upload_prop_defs =
  wellformed_def ids_def pendingIds_def slots_def mark_def doc_def five_files_def
  network_down_def

subsection \<open>Every operation keeps the counter at or above zero\<close>

lemma foldl_preserves:
  assumes "\<And>t x. P t \<Longrightarrow> P (f t x)" and "P s"
  shows "P (foldl f s xs)"
  using assms(2) by (induction xs arbitrary: s) (auto intro: assms(1))

lemma nonneg_next_queue: "nonneg s \<Longrightarrow> 0 \<le> activeUploads q \<Longrightarrow> nonneg (next_queue q s)"
  by (simp add: nonneg_def next_queue_def)

lemma nonneg_updateFileStatus: "nonneg s \<Longrightarrow> nonneg (updateFileStatus i st e s)"
  by (auto simp: updateFileStatus_def Let_def nonneg_def next_queue_def split: option.splits)

lemma nonneg_updateFileProgress: "nonneg s \<Longrightarrow> nonneg (updateFileProgress i p s)"
  by (auto simp: updateFileProgress_def Let_def nonneg_def next_queue_def split: option.splits)

lemma nonneg_increment: "nonneg s \<Longrightarrow> nonneg (incrementActiveUploads s)"
  by (simp add: incrementActiveUploads_def nonneg_def next_queue_def)

lemma nonneg_decrement: "nonneg s \<Longrightarrow> nonneg (decrementActiveUploads s)"
  by (simp add: decrementActiveUploads_def nonneg_def next_queue_def)

lemma nonneg_requests: "nonneg (s\<lparr>requests := r\<rparr>) = nonneg s"
  by (simp add: nonneg_def)

lemma nonneg_completed: "nonneg (s\<lparr>completed := r\<rparr>) = nonneg s"
  by (simp add: nonneg_def)

lemma nonneg_alerts: "nonneg (s\<lparr>alerts := r\<rparr>) = nonneg s"
  by (simp add: nonneg_def)

lemma nonneg_startSingleUpload: "nonneg s \<Longrightarrow> nonneg (startSingleUpload fu s)"
  by (simp add: startSingleUpload_def Let_def nonneg_requests nonneg_increment
      nonneg_updateFileStatus split: option.splits)

lemma nonneg_processUploadQueue: "nonneg s \<Longrightarrow> nonneg (processUploadQueue s)"
  unfolding processUploadQueue_def Let_def
  by (auto intro!: foldl_preserves[where P = nonneg] nonneg_startSingleUpload)

lemma nonneg_step: "nonneg s \<Longrightarrow> nonneg (step s e)"
proof (cases e)
  case (AddFiles cs)
  assume "nonneg s"
  then show ?thesis using AddFiles
    by (auto simp: addFilesToQueue_def Let_def nonneg_def next_queue_def)
next
  case StartAll
  assume "nonneg s"
  then show ?thesis using StartAll by (simp add: startAllUploads_def nonneg_processUploadQueue)
next
  case (StartById i)
  assume "nonneg s"
  then show ?thesis using StartById
    by (simp add: startUploadById_def nonneg_startSingleUpload split: option.splits)
next
  case (Cancel i)
  assume "nonneg s"
  then show ?thesis using Cancel
    by (simp add: cancelUpload_def removeFromQueue_def nonneg_def next_queue_def)
next
  case CancelAll
  assume n: "nonneg s"
  have "nonneg (foldl (\<lambda>t f. if status f = Pending \<or> status f = Uploading
                             then updateFileStatus (id' f) Failed (Some ''Cancelled by user'') t
                             else t) s (files (queue s)))"
    by (rule foldl_preserves[where P = nonneg]) (auto simp: n nonneg_updateFileStatus)
  then show ?thesis using CancelAll
    by (simp add: cancelAllUploads_def Let_def nonneg_next_queue)
next
  case (Retry i)
  assume n: "nonneg s"
  have "nonneg (s\<lparr>queue := (queue s)\<lparr>files := fs\<rparr>\<rparr>)" for fs
    using n by (simp add: nonneg_def)
  then show ?thesis using Retry n
    by (auto simp: retryUpload_def Let_def nonneg_processUploadQueue split: option.splits)
next
  case ClearCompleted
  assume "nonneg s"
  then show ?thesis using ClearCompleted
    by (simp add: clearCompletedUploads_def nonneg_def next_queue_def)
next
  case (HttpProgress i l t)
  assume "nonneg s"
  then show ?thesis using HttpProgress
    by (simp add: onProgress_def nonneg_updateFileProgress)
next
  case (HttpResponse i r)
  assume "nonneg s"
  then show ?thesis using HttpResponse
    by (simp add: onResponse_def Let_def nonneg_processUploadQueue nonneg_decrement
        nonneg_updateFileStatus nonneg_completed)
next
  case (HttpFailure i e)
  assume "nonneg s"
  then show ?thesis using HttpFailure
    by (simp add: onError_def handleUploadError_def Let_def nonneg_processUploadQueue
        nonneg_decrement nonneg_updateFileStatus)
qed

lemma nonneg_run: "nonneg s \<Longrightarrow> nonneg (run s evs)"
  unfolding run_def by (rule foldl_preserves[where P = nonneg]) (auto simp: nonneg_step)

lemma nonneg_initial: "nonneg initialService"
  by (simp add: nonneg_def initialService_def initialQueue_def)


subsection \<open>What the scheduler starts\<close>

lemma findIndex_None: "findIndex i fs = None \<longleftrightarrow> i \<notin> set (map id' fs)"
  by (induction fs) auto

lemma findIndex_Some:
  "findIndex i fs = Some k \<Longrightarrow> k < length fs \<and> id' (fs ! k) = i"
  by (induction fs arbitrary: k) (auto split: if_splits)

lemma update_at_findIndex:
  "distinct (map id' fs) \<Longrightarrow> findIndex i fs = Some k \<Longrightarrow>
   fs[k := g (fs ! k)] = map (\<lambda>f. if id' f = i then g f else f) fs"
proof (induction fs arbitrary: k)
  case Nil
  then show ?case by simp
next
  case (Cons f fs)
  show ?case
  proof (cases "id' f = i")
    case True
    then have "i \<notin> set (map id' fs)" using Cons.prems(1) by auto
    then have "map (\<lambda>f. if id' f = i then g f else f) fs = fs"
      by (induction fs) auto
    then show ?thesis using True Cons.prems(2) by simp
  next
    case False
    then obtain k' where "findIndex i fs = Some k'" "k = Suc k'"
      using Cons.prems(2) by auto
    then show ?thesis using False Cons.IH[of k'] Cons.prems(1) by simp
  qed
qed

lemma map_absent:
  "i \<notin> set (map id' fs) \<Longrightarrow> map (\<lambda>f. if id' f = i then g f else f) fs = fs"
  by (induction fs) auto

lemma files_updateFileStatus:
  "distinct (ids s) \<Longrightarrow>
   files (queue (updateFileStatus i st e s)) =
     map (\<lambda>f. if id' f = i then f\<lparr>status := st, error := or_error e (error f)\<rparr> else f)
       (files (queue s))"
proof (cases "findIndex i (files (queue s))")
  case None
  then have "i \<notin> set (map id' (files (queue s)))" using findIndex_None by blast
  then show ?thesis using None
    by (simp add: updateFileStatus_def map_absent)
next
  case (Some k)
  assume "distinct (ids s)"
  then show ?thesis
    using Some update_at_findIndex[of "files (queue s)" i k
        "\<lambda>f. f\<lparr>status := st, error := or_error e (error f)\<rparr>"]
    by (simp add: updateFileStatus_def next_queue_def ids_def Let_def)
qed

lemma map_id_update:
  "k < length fs \<Longrightarrow> map id' (fs[k := (fs ! k)\<lparr>status := st, error := e\<rparr>]) = map id' fs"
  by (simp add: map_update) (metis list_update_id nth_map)

lemma other_updateFileStatus:
  "activeUploads (queue (updateFileStatus i st e s)) = activeUploads (queue s)"
  "maxConcurrent (queue (updateFileStatus i st e s)) = maxConcurrent (queue s)"
  "requests (updateFileStatus i st e s) = requests s"
  "ids (updateFileStatus i st e s) = ids s"
  by (auto simp: updateFileStatus_def next_queue_def Let_def ids_def map_id_update
      dest: findIndex_Some split: option.splits)

lemma startSingleUpload_effect:
  assumes "distinct (ids s)" and "file' fu \<noteq> None"
  shows "files (queue (startSingleUpload fu s)) = mark [id' fu] (files (queue s))"
    and "activeUploads (queue (startSingleUpload fu s)) = activeUploads (queue s) + 1"
    and "maxConcurrent (queue (startSingleUpload fu s)) = maxConcurrent (queue s)"
    and "requests (startSingleUpload fu s) = requests s @ [id' fu]"
    and "ids (startSingleUpload fu s) = ids s"
proof -
  obtain f where f: "file' fu = Some f" using assms(2) by auto
  have eq: "startSingleUpload fu s =
      (incrementActiveUploads (updateFileStatus (id' fu) Uploading None s))
        \<lparr>requests := requests (incrementActiveUploads (updateFileStatus (id' fu) Uploading None s)) @ [id' fu]\<rparr>"
    by (simp add: startSingleUpload_def f Let_def)
  have same: "(\<lambda>f. if id' f = id' fu then f\<lparr>status := Uploading, error := or_error None (error f)\<rparr> else f)
      = (\<lambda>f. if id' f \<in> set [id' fu] then f\<lparr>status := Uploading\<rparr> else f)"
    by (auto simp: or_error_def falsy_def)
  show "files (queue (startSingleUpload fu s)) = mark [id' fu] (files (queue s))"
    using files_updateFileStatus[OF assms(1), of "id' fu" Uploading None]
    by (simp add: eq incrementActiveUploads_def next_queue_def mark_def same)
  show "activeUploads (queue (startSingleUpload fu s)) = activeUploads (queue s) + 1"
    by (simp add: eq incrementActiveUploads_def next_queue_def other_updateFileStatus)
  show "maxConcurrent (queue (startSingleUpload fu s)) = maxConcurrent (queue s)"
    by (simp add: eq incrementActiveUploads_def next_queue_def other_updateFileStatus)
  show "requests (startSingleUpload fu s) = requests s @ [id' fu]"
    by (simp add: eq incrementActiveUploads_def next_queue_def other_updateFileStatus)
  show "ids (startSingleUpload fu s) = ids s"
    using other_updateFileStatus(4)[of "id' fu" Uploading None s]
    by (simp add: eq incrementActiveUploads_def next_queue_def ids_def)
qed

lemma mark_mark: "mark P (mark Q fs) = mark (Q @ P) fs"
  by (auto simp: mark_def)

lemma mark_Nil: "mark [] fs = fs"
  by (simp add: mark_def)

lemma start_many:
  assumes "distinct (ids s)" and "\<forall>fu \<in> set P. file' fu \<noteq> None"
  shows "files (queue (foldl (\<lambda>t fu. startSingleUpload fu t) s P)) = mark (map id' P) (files (queue s))
       \<and> activeUploads (queue (foldl (\<lambda>t fu. startSingleUpload fu t) s P)) = activeUploads (queue s) + int (length P)
       \<and> maxConcurrent (queue (foldl (\<lambda>t fu. startSingleUpload fu t) s P)) = maxConcurrent (queue s)
       \<and> requests (foldl (\<lambda>t fu. startSingleUpload fu t) s P) = requests s @ map id' P
       \<and> ids (foldl (\<lambda>t fu. startSingleUpload fu t) s P) = ids s"
  using assms
proof (induction P arbitrary: s)
  case Nil
  then show ?case by (simp add: mark_Nil)
next
  case (Cons fu P)
  have d: "distinct (ids (startSingleUpload fu s))"
    using Cons.prems startSingleUpload_effect(5)[of s fu] by simp
  have rest: "\<forall>fu \<in> set P. file' fu \<noteq> None" using Cons.prems(2) by simp
  have h: "file' fu \<noteq> None" using Cons.prems(2) by simp
  note e = startSingleUpload_effect[OF Cons.prems(1) h]
  show ?case using Cons.IH[OF d rest]
    by (simp add: e mark_mark)
qed

lemma processUploadQueue_effect:
  assumes "wellformed s"
  shows "files (queue (processUploadQueue s)) = mark (take (slots s) (pendingIds s)) (files (queue s))
       \<and> activeUploads (queue (processUploadQueue s)) =
           activeUploads (queue s) + int (length (take (slots s) (pendingIds s)))
       \<and> maxConcurrent (queue (processUploadQueue s)) = maxConcurrent (queue s)
       \<and> requests (processUploadQueue s) = requests s @ take (slots s) (pendingIds s)
       \<and> ids (processUploadQueue s) = ids s"
proof (cases "maxConcurrent (queue s) - activeUploads (queue s) > 0
              \<and> length (filter (\<lambda>f. status f = Pending) (files (queue s))) > 0")
  case True
  let ?P = "take (slots s) (filter (\<lambda>f. status f = Pending) (files (queue s)))"
  have run: "processUploadQueue s = foldl (\<lambda>t fu. startSingleUpload fu t) s ?P"
    using True by (simp add: processUploadQueue_def Let_def slots_def)
  have present: "\<forall>fu \<in> set ?P. file' fu \<noteq> None"
    using assms by (auto simp: wellformed_def dest!: in_set_takeD)
  have d: "distinct (ids s)" using assms by (simp add: wellformed_def)
  have idsP: "map id' ?P = take (slots s) (pendingIds s)"
    by (simp add: pendingIds_def take_map)
  have lenP: "length ?P = length (take (slots s) (pendingIds s))"
    by (simp add: pendingIds_def)
  show ?thesis
    using start_many[OF d present] unfolding run idsP lenP by blast
next
  case False
  then have e: "take (slots s) (pendingIds s) = []"
    by (auto simp: slots_def pendingIds_def)
  have "processUploadQueue s = s"
    using False by (auto simp: processUploadQueue_def Let_def)
  then show ?thesis unfolding e by (simp add: mark_Nil)
qed

lemma prefix_closed:
  assumes "distinct xs" and "i < j" and "j < length xs" and "xs ! j \<in> set (take k xs)"
  shows "xs ! i \<in> set (take k xs)"
proof -
  have "j < k"
  proof (rule ccontr)
    assume "\<not> j < k"
    then have "k \<le> j" by simp
    from assms(4) obtain m where m: "m < length (take k xs)" "take k xs ! m = xs ! j"
      by (auto simp: in_set_conv_nth)
    then have "m < k" "m < length xs" "xs ! m = xs ! j" by auto
    then have "m = j" using assms(1,3) by (simp add: nth_eq_iff_index_eq)
    then show False using \<open>m < k\<close> \<open>k \<le> j\<close> by simp
  qed
  then have "i < k" using assms(2) by simp
  moreover have "i < length xs" using assms(2,3) by simp
  ultimately have "take k xs ! i = xs ! i" "i < length (take k xs)" by auto
  then show ?thesis by (metis nth_mem)
qed

lemma fifo_decomp:
  assumes d: "distinct (map id' fs)"
    and fs: "fs = A @ fi # B @ fj # C"
    and pi: "status fi = Pending" and pj: "status fj = Pending"
    and inP: "id' fj \<in> set (take k (map id' (filter (\<lambda>f. status f = Pending) fs)))"
  shows "id' fi \<in> set (take k (map id' (filter (\<lambda>f. status f = Pending) fs)))"
proof -
  let ?p = "\<lambda>f. status f = Pending"
  let ?xs = "map id' (filter ?p fs)"
  let ?i = "length (filter ?p A)"
  let ?j = "length (filter ?p A) + 1 + length (filter ?p B)"
  have xs: "?xs = map id' (filter ?p A) @ id' fi # map id' (filter ?p B) @ id' fj # map id' (filter ?p C)"
    using fs pi pj by simp
  have dx: "distinct ?xs" using d by (simp add: distinct_map_filter)
  have i: "?xs ! ?i = id' fi" unfolding xs by (simp add: nth_append)
  have j: "?xs ! ?j = id' fj" unfolding xs by (simp add: nth_append)
  have lt: "?i < ?j" by simp
  have len: "?j < length ?xs" unfolding xs by simp
  show ?thesis
    using prefix_closed[OF dx lt len] inP i j by metis
qed


subsection \<open>Admission\<close>

lemma big_exe_size: "size' big_exe > MAX_FILE_SIZE"
  by (simp add: big_exe_def MAX_FILE_SIZE_def)

lemma big_exe_ext: "ext_not_allowed big_exe"
  by (simp add: ext_not_allowed_def fileExtension_def big_exe_def toLowerCase_def
      lower_char_def falsy_def ALLOWED_FILE_TYPES_def)

lemma doc_pdf_valid: "validateFile (doc ''a.pdf'') = \<lparr>isValid = True, verror = None\<rparr>"
  by (simp add: validateFile_def doc_def MAX_FILE_SIZE_def fileExtension_def
        falsy_def toLowerCase_def lower_char_def ALLOWED_FILE_TYPES_def)

subsection \<open>Status updates and the settling of a task\<close>

lemma files_map_updateFileStatus:
  "wellformed s \<Longrightarrow>
   files (queue (updateFileStatus i st e s)) =
     map (\<lambda>f. if id' f = i then f\<lparr>status := st, error := or_error e (error f)\<rparr> else f)
       (files (queue s))"
  by (simp add: wellformed_def files_updateFileStatus)

lemma wellformed_updateFileStatus:
  assumes "wellformed s"
  shows "wellformed (updateFileStatus i st e s)"
  using assms files_map_updateFileStatus[OF assms, of i st e]
  by (auto simp: wellformed_def other_updateFileStatus)

lemma pendingIds_map:
  assumes "\<forall>f \<in> set fs. id' f = i \<longrightarrow> status f \<noteq> Pending" and "st \<noteq> Pending"
  shows "filter (\<lambda>f. status f = Pending)
           (map (\<lambda>f. if id' f = i then f\<lparr>status := st, error := g f\<rparr> else f) fs)
         = filter (\<lambda>f. status f = Pending) fs"
  using assms by (induction fs) auto

lemma pendingIds_updateFileStatus:
  assumes "wellformed s" and "i \<notin> set (pendingIds s)" and "st \<noteq> Pending"
  shows "pendingIds (updateFileStatus i st e s) = pendingIds s"
proof -
  have "\<forall>f \<in> set (files (queue s)). id' f = i \<longrightarrow> status f \<noteq> Pending"
    using assms(2) by (auto simp: pendingIds_def)
  then show ?thesis
    using assms(3) pendingIds_map[of "files (queue s)" i st "\<lambda>f. or_error e (error f)"]
    by (simp add: pendingIds_def files_map_updateFileStatus[OF assms(1)])
qed

lemma wellformed_fields:
  "wellformed (s\<lparr>completed := c\<rparr>) = wellformed s"
  "wellformed (s\<lparr>requests := r\<rparr>) = wellformed s"
  "wellformed (s\<lparr>alerts := a\<rparr>) = wellformed s"
  "wellformed (s\<lparr>emitted := m\<rparr>) = wellformed s"
  by (simp_all add: wellformed_def ids_def)

lemma pendingIds_fields:
  "pendingIds (s\<lparr>completed := c\<rparr>) = pendingIds s"
  "pendingIds (s\<lparr>requests := r\<rparr>) = pendingIds s"
  "pendingIds (s\<lparr>alerts := a\<rparr>) = pendingIds s"
  "pendingIds (s\<lparr>emitted := m\<rparr>) = pendingIds s"
  by (simp_all add: pendingIds_def)

lemma decrement_reads:
  "files (queue (decrementActiveUploads s)) = files (queue s)"
  "maxConcurrent (queue (decrementActiveUploads s)) = maxConcurrent (queue s)"
  "activeUploads (queue (decrementActiveUploads s)) = max 0 (activeUploads (queue s) - 1)"
  "requests (decrementActiveUploads s) = requests s"
  "wellformed (decrementActiveUploads s) = wellformed s"
  "pendingIds (decrementActiveUploads s) = pendingIds s"
  "ids (decrementActiveUploads s) = ids s"
  by (simp_all add: decrementActiveUploads_def next_queue_def wellformed_def ids_def pendingIds_def)

lemma onResponse_settled:
  "onResponse i r s = processUploadQueue (decrementActiveUploads (settled i r s))"
  by (simp add: onResponse_def settled_def Let_def)

lemma settled_reads:
  "activeUploads (queue (settled i r s)) = activeUploads (queue s)"
  "maxConcurrent (queue (settled i r s)) = maxConcurrent (queue s)"
  "requests (settled i r s) = requests s"
  by (simp_all add: settled_def other_updateFileStatus)

lemma ids_fields:
  "ids (s\<lparr>completed := c\<rparr>) = ids s"
  "ids (s\<lparr>requests := q\<rparr>) = ids s"
  "ids (s\<lparr>alerts := a\<rparr>) = ids s"
  "ids (s\<lparr>emitted := m\<rparr>) = ids s"
  by (simp_all add: ids_def)

lemma wellformed_settled: "wellformed s \<Longrightarrow> wellformed (settled i r s)"
  by (simp add: settled_def wellformed_fields wellformed_updateFileStatus)

lemma pendingIds_settled:
  "wellformed s \<Longrightarrow> i \<notin> set (pendingIds s) \<Longrightarrow> pendingIds (settled i r s) = pendingIds s"
  by (simp add: settled_def pendingIds_fields pendingIds_updateFileStatus)


subsection \<open>Two concrete services\<close>

lemma five_pending_queue:
  "queue five_pending =
     \<lparr>files = map mkFileUpload [(doc ''a.pdf'', ''t1''), (doc ''b.pdf'', ''t2''), (doc ''c.txt'', ''t3''),
                  (doc ''d.docx'', ''t4''), (doc ''e.pdf'', ''t5'')],
      activeUploads = 0, maxConcurrent = 3\<rparr>"
  "requests five_pending = []"
  by (simp_all add: five_pending_def five_files_def upload_prop_defs upload_defs)

lemma three_running_queue:
  "queue three_running =
     \<lparr>files = [(mkFileUpload (doc ''a.pdf'', ''t1''))\<lparr>status := Uploading\<rparr>,
               (mkFileUpload (doc ''b.pdf'', ''t2''))\<lparr>status := Uploading\<rparr>,
               (mkFileUpload (doc ''c.txt'', ''t3''))\<lparr>status := Uploading\<rparr>,
               mkFileUpload (doc ''d.docx'', ''t4''), mkFileUpload (doc ''e.pdf'', ''t5'')],
      activeUploads = 3, maxConcurrent = 3\<rparr>"
  "requests three_running = [''t1'', ''t2'', ''t3'']"
  by (simp_all add: three_running_def run_def startAllUploads_def processUploadQueue_def
      five_pending_queue Let_def mkFileUpload_def startSingleUpload_def updateFileStatus_def
      incrementActiveUploads_def next_queue_def or_error_def falsy_def)

lemma three_running_reads:
  "wellformed three_running"
  "pendingIds three_running = [''t4'', ''t5'']"
  by (simp_all add: wellformed_def ids_def pendingIds_def three_running_queue mkFileUpload_def)


subsection \<open>Events for a task that has left the queue\<close>

lemma updateFileStatus_absent:
  "i \<notin> set (ids s) \<Longrightarrow> updateFileStatus i st e s = s"
  using findIndex_None[of i "files (queue s)"]
  by (simp add: updateFileStatus_def ids_def)

lemma ids_increment: "ids (incrementActiveUploads s) = ids s"
  by (simp add: incrementActiveUploads_def next_queue_def ids_def)

lemma ids_startSingleUpload: "ids (startSingleUpload fu s) = ids s"
  by (cases "file' fu")
     (simp_all add: startSingleUpload_def Let_def ids_fields ids_increment
        other_updateFileStatus)

lemma ids_processUploadQueue: "ids (processUploadQueue s) = ids s"
proof -
  have "ids (foldl (\<lambda>t fu. startSingleUpload fu t) s P) = ids s" for P
    by (rule foldl_preserves[where P = "\<lambda>t. ids t = ids s"])
       (simp_all add: ids_startSingleUpload)
  then show ?thesis by (simp add: processUploadQueue_def Let_def)
qed

lemma processUploadQueue_idle:
  "pendingIds s = [] \<Longrightarrow> processUploadQueue s = s"
  by (simp add: processUploadQueue_def pendingIds_def Let_def)

lemma one_admitted_queue:
  "queue one_admitted =
     \<lparr>files = [mkFileUpload (doc ''a.pdf'', ''t1'')], activeUploads = 0, maxConcurrent = 3\<rparr>"
  by (simp add: one_admitted_def addFilesToQueue_def validFiles_def errors_def doc_pdf_valid
      Let_def next_queue_def initialService_def initialQueue_def MAX_CONCURRENT_UPLOADS_def)

lemma one_cancelled_queue:
  "queue one_cancelled = \<lparr>files = [], activeUploads = 1, maxConcurrent = 3\<rparr>"
  by (simp add: one_cancelled_def run_def startAllUploads_def processUploadQueue_def
      one_admitted_queue Let_def mkFileUpload_def startSingleUpload_def updateFileStatus_def
      incrementActiveUploads_def next_queue_def or_error_def falsy_def cancelUpload_def
      removeFromQueue_def)


subsection \<open>The counter follows the tasks uploading\<close>

text \<open>
  The equality of the counter and the number of tasks uploading is kept by every event
  of a tracked run, \<open>startUploadById\<close> included, whether a slot is free or not.
\<close>

lemma count_map_update:
  assumes "distinct (map id' fs)" and "find (\<lambda>f. id' f = i) fs = Some f0"
  shows "length (filter (\<lambda>f. status f = Uploading) (map (\<lambda>f. if id' f = i then g f else f) fs))
           + (if status f0 = Uploading then 1 else 0)
         = length (filter (\<lambda>f. status f = Uploading) fs)
           + (if status (g f0) = Uploading then 1 else 0)"
  using assms
proof (induction fs)
  case Nil
  then show ?case by simp
next
  case (Cons f fs)
  show ?case
  proof (cases "id' f = i")
    case True
    then have "i \<notin> set (map id' fs)" using Cons.prems(1) by auto
    then have "map (\<lambda>f. if id' f = i then g f else f) fs = fs" by (rule map_absent)
    then show ?thesis using True Cons.prems(2) by simp
  next
    case False
    then show ?thesis using Cons by simp
  qed
qed

lemma find_map_update:
  assumes "\<And>f. id' (g f) = id' f"
  shows "map_option status (find (\<lambda>f. id' f = j) (map (\<lambda>f. if id' f = i then g f else f) fs))
         = (if j = i then map_option (status \<circ> g) (find (\<lambda>f. id' f = j) fs)
            else map_option status (find (\<lambda>f. id' f = j) fs))"
  by (induction fs) (auto simp: assms comp_def)

lemma uploading_updateFileStatus:
  assumes "wellformed s" and "statusOf s i = Some old"
  shows "int (uploading (updateFileStatus i st e s)) =
           int (uploading s) + (if st = Uploading then 1 else 0) - (if old = Uploading then 1 else 0)"
proof -
  from assms(2) obtain f0 where f0: "find (\<lambda>f. id' f = i) (files (queue s)) = Some f0"
    "status f0 = old" by (auto simp: statusOf_def)
  have d: "distinct (map id' (files (queue s)))" using assms(1) by (simp add: wellformed_def ids_def)
  from count_map_update[OF d f0(1), of "\<lambda>f. f\<lparr>status := st, error := or_error e (error f)\<rparr>"]
  show ?thesis
    by (simp add: uploading_def files_map_updateFileStatus[OF assms(1)] f0(2) split: if_splits)
qed

lemma statusOf_updateFileStatus:
  assumes "wellformed s"
  shows "statusOf (updateFileStatus i st e s) j =
           (if j = i \<and> statusOf s i \<noteq> None then Some st else statusOf s j)"
  using find_map_update[of "\<lambda>f. f\<lparr>status := st, error := or_error e (error f)\<rparr>" j i "files (queue s)"]
  by (auto simp: statusOf_def files_map_updateFileStatus[OF assms])

lemma tracking_startSingleUpload:
  assumes "tracking s" and "statusOf s (id' fu) = Some Pending" and "file' fu \<noteq> None"
  shows "tracking (startSingleUpload fu s)"
proof -
  let ?s1 = "updateFileStatus (id' fu) Uploading None s"
  have w: "wellformed s" using assms(1) by (simp add: tracking_def)
  obtain f where f: "file' fu = Some f" using assms(3) by auto
  have eq: "startSingleUpload fu s =
      (incrementActiveUploads ?s1)\<lparr>requests := requests (incrementActiveUploads ?s1) @ [id' fu]\<rparr>"
    by (simp add: startSingleUpload_def f Let_def)
  have w1: "wellformed ?s1" using w by (rule wellformed_updateFileStatus)
  have u1: "int (uploading ?s1) = int (uploading s) + 1"
    using uploading_updateFileStatus[OF w assms(2), of Uploading None] by simp
  have a1: "activeUploads (queue ?s1) = activeUploads (queue s)"
    by (simp add: other_updateFileStatus)
  show ?thesis
    using assms(1) w1 u1 a1
    by (auto simp: eq tracking_def incrementActiveUploads_def next_queue_def wellformed_def
        ids_def uploading_def)
qed

lemma find_own:
  "distinct (map id' fs) \<Longrightarrow> f \<in> set fs \<Longrightarrow> find (\<lambda>g. id' g = id' f) fs = Some f"
  by (induction fs) (auto simp: rev_image_eqI)

lemma statusOf_member:
  "wellformed s \<Longrightarrow> f \<in> set (files (queue s)) \<Longrightarrow> statusOf s (id' f) = Some (status f)"
  by (simp add: statusOf_def wellformed_def ids_def find_own)

lemma statusOf_fields:
  "statusOf (s\<lparr>requests := r\<rparr>) = statusOf s"
  "statusOf (s\<lparr>completed := c\<rparr>) = statusOf s"
  "statusOf (incrementActiveUploads s) = statusOf s"
  "statusOf (decrementActiveUploads s) = statusOf s"
  by (auto simp: statusOf_def incrementActiveUploads_def decrementActiveUploads_def next_queue_def)

lemma statusOf_startSingleUpload:
  assumes "wellformed s" and "file' fu \<noteq> None"
  shows "statusOf (startSingleUpload fu s) j =
           (if j = id' fu \<and> statusOf s j \<noteq> None then Some Uploading else statusOf s j)"
proof -
  obtain f where f: "file' fu = Some f" using assms(2) by auto
  show ?thesis
    by (simp add: startSingleUpload_def f Let_def statusOf_fields
        statusOf_updateFileStatus[OF assms(1)])
qed

lemma tracking_start_many:
  assumes "tracking s" and "distinct (map id' P)"
    and "\<forall>fu \<in> set P. statusOf s (id' fu) = Some Pending \<and> file' fu \<noteq> None"
  shows "tracking (foldl (\<lambda>t fu. startSingleUpload fu t) s P)"
  using assms
proof (induction P arbitrary: s)
  case Nil
  then show ?case by simp
next
  case (Cons fu P)
  have w: "wellformed s" using Cons.prems(1) by (simp add: tracking_def)
  have p: "statusOf s (id' fu) = Some Pending" "file' fu \<noteq> None" using Cons.prems(3) by auto
  have c1: "tracking (startSingleUpload fu s)"
    using tracking_startSingleUpload[OF Cons.prems(1) p] .
  have r1: "\<forall>fu' \<in> set P. statusOf (startSingleUpload fu s) (id' fu') = Some Pending \<and> file' fu' \<noteq> None"
  proof
    fix fu' assume m: "fu' \<in> set P"
    then have "id' fu' \<in> set (map id' P)" by simp
    moreover have "id' fu \<notin> set (map id' P)" using Cons.prems(2) by simp
    ultimately have "id' fu' \<noteq> id' fu" by metis
    then show "statusOf (startSingleUpload fu s) (id' fu') = Some Pending \<and> file' fu' \<noteq> None"
      using Cons.prems(3) m by (simp add: statusOf_startSingleUpload[OF w p(2)])
  qed
  have "distinct (map id' P)" using Cons.prems(2) by simp
  from Cons.IH[OF c1 this r1] show ?case by simp
qed

lemma tracking_processUploadQueue:
  assumes "tracking s"
  shows "tracking (processUploadQueue s)"
proof (cases "maxConcurrent (queue s) - activeUploads (queue s) > 0
              \<and> length (filter (\<lambda>f. status f = Pending) (files (queue s))) > 0")
  case True
  let ?P = "take (nat (maxConcurrent (queue s) - activeUploads (queue s)))
              (filter (\<lambda>f. status f = Pending) (files (queue s)))"
  have w: "wellformed s" using assms by (simp add: tracking_def)
  have run: "processUploadQueue s = foldl (\<lambda>t fu. startSingleUpload fu t) s ?P"
    using True by (simp add: processUploadQueue_def Let_def)
  have "distinct (map id' (filter (\<lambda>f. status f = Pending) (files (queue s))))"
    using w by (simp add: wellformed_def ids_def distinct_map_filter)
  then have "distinct (take (nat (maxConcurrent (queue s) - activeUploads (queue s)))
      (map id' (filter (\<lambda>f. status f = Pending) (files (queue s)))))"
    by (rule distinct_take)
  then have d: "distinct (map id' ?P)" by (simp add: take_map)
  have mem: "\<forall>fu \<in> set ?P. fu \<in> set (files (queue s)) \<and> status fu = Pending"
    by (auto dest!: in_set_takeD)
  have p: "\<forall>fu \<in> set ?P. statusOf s (id' fu) = Some Pending \<and> file' fu \<noteq> None"
  proof
    fix fu assume "fu \<in> set ?P"
    then have "fu \<in> set (files (queue s)) \<and> status fu = Pending" using mem by blast
    then have m: "fu \<in> set (files (queue s))" "status fu = Pending" by blast+
    from w have "\<forall>f \<in> set (files (queue s)). file' f \<noteq> None"
      by (simp add: wellformed_def)
    with m(1) have "file' fu \<noteq> None" by blast
    moreover have "statusOf s (id' fu) = Some Pending"
      using statusOf_member[OF w m(1)] m(2) by simp
    ultimately show "statusOf s (id' fu) = Some Pending \<and> file' fu \<noteq> None" by blast
  qed
  show ?thesis unfolding run by (rule tracking_start_many[OF assms d p])
next
  case False
  then have "processUploadQueue s = s" by (auto simp: processUploadQueue_def Let_def)
  then show ?thesis using assms by simp
qed

lemma tracking_fields:
  "tracking (s\<lparr>requests := r\<rparr>) = tracking s"
  "tracking (s\<lparr>completed := c\<rparr>) = tracking s"
  "tracking (s\<lparr>alerts := a\<rparr>) = tracking s"
  by (simp_all add: tracking_def wellformed_def ids_def uploading_def)

lemma tracking_next_queue:
  assumes "tracking s" and "distinct (map id' fs)" and "\<forall>f \<in> set fs. file' f \<noteq> None"
    and "length (filter (\<lambda>f. status f = Uploading) fs) = uploading s"
  shows "tracking (next_queue ((queue s)\<lparr>files := fs\<rparr>) s)"
  using assms
  by (auto simp: tracking_def next_queue_def wellformed_def ids_def uploading_def)

lemma tracking_AddFiles:
  assumes "tracking s" and "tracked s (AddFiles cs)"
  shows "tracking (step s (AddFiles cs))"
proof -
  let ?v = "validFiles cs"
  have ids: "map id' ?v = map snd (filter (\<lambda>c. isValid (validateFile (fst c))) cs)"
    by (simp add: validFiles_def mkFileUpload_def comp_def)
  have d0: "distinct (map id' (files (queue s)))"
    using assms(1) by (simp add: tracking_def wellformed_def ids_def)
  have dv: "distinct (map id' ?v)" using assms(2) by (simp add: ids distinct_map_filter)
  have sub: "set (map id' ?v) \<subseteq> snd ` set cs" unfolding ids by auto
  have "\<forall>x \<in> set (map id' ?v). x \<notin> set (map id' (files (queue s)))"
  proof
    fix x assume "x \<in> set (map id' ?v)"
    then have "x \<in> snd ` set cs" using sub by blast
    then obtain c where "c \<in> set cs" "x = snd c" by blast
    then show "x \<notin> set (map id' (files (queue s)))" using assms(2) by (simp add: ids_def)
  qed
  then have disj: "set (map id' (files (queue s))) \<inter> set (map id' ?v) = {}" by blast
  have d: "distinct (map id' (files (queue s) @ ?v))"
    using d0 dv disj by simp
  have f: "\<forall>f \<in> set (files (queue s) @ ?v). file' f \<noteq> None"
    using assms(1) by (auto simp: tracking_def wellformed_def validFiles_def mkFileUpload_def)
  have u: "length (filter (\<lambda>f. status f = Uploading) (files (queue s) @ ?v)) = uploading s"
    by (simp add: uploading_def validFiles_def mkFileUpload_def comp_def)
  let ?s1 = "if errors cs \<noteq> [] then s\<lparr>alerts := alerts s @ [errors cs]\<rparr> else s"
  have c: "tracking ?s1" using assms(1) by (simp add: tracking_fields)
  have q: "queue ?s1 = queue s" by simp
  have u1: "length (filter (\<lambda>f. status f = Uploading) (files (queue s) @ ?v)) = uploading ?s1"
    using u by (simp add: uploading_def)
  have "tracking (next_queue ((queue ?s1)\<lparr>files := files (queue s) @ ?v\<rparr>) ?s1)"
    by (rule tracking_next_queue[OF c d f u1])
  moreover have "step s (AddFiles cs) = next_queue ((queue ?s1)\<lparr>files := files (queue s) @ ?v\<rparr>) ?s1"
    by (simp add: addFilesToQueue_def Let_def)
  ultimately show ?thesis by simp
qed

lemma tracking_StartById:
  assumes "tracking s"
  shows "tracking (step s (StartById i))"
proof (cases "find (\<lambda>f. id' f = i \<and> status f = Pending) (files (queue s))")
  case None
  then show ?thesis using assms(1) by (simp add: startUploadById_def)
next
  case (Some fu)
  have w: "wellformed s" using assms(1) by (simp add: tracking_def)
  from Some have m: "fu \<in> set (files (queue s))" "id' fu = i" "status fu = Pending"
    by (auto simp: find_Some_iff)
  have st: "statusOf s (id' fu) = Some Pending" using statusOf_member[OF w m(1)] m(3) by simp
  from w have "\<forall>f \<in> set (files (queue s)). file' f \<noteq> None" by (simp add: wellformed_def)
  with m(1) have fp: "file' fu \<noteq> None" by blast
  show ?thesis
    using tracking_startSingleUpload[OF assms(1) st fp] Some
    by (simp add: startUploadById_def)
qed

lemma filter_other_count:
  assumes "\<forall>f \<in> set fs. id' f = i \<longrightarrow> status f \<noteq> Uploading"
  shows "length (filter (\<lambda>f. status f = Uploading) (filter (\<lambda>f. id' f \<noteq> i) fs))
         = length (filter (\<lambda>f. status f = Uploading) fs)"
  using assms by (induction fs) auto

lemma tracking_Cancel:
  assumes "tracking s" and "tracked s (Cancel i)"
  shows "tracking (step s (Cancel i))"
proof -
  have w: "wellformed s" using assms(1) by (simp add: tracking_def)
  let ?fs = "filter (\<lambda>f. id' f \<noteq> i) (files (queue s))"
  have d: "distinct (map id' ?fs)"
    using w by (simp add: wellformed_def ids_def distinct_map_filter)
  have f: "\<forall>f \<in> set ?fs. file' f \<noteq> None" using w by (simp add: wellformed_def)
  have no: "\<forall>f \<in> set (files (queue s)). id' f = i \<longrightarrow> status f \<noteq> Uploading"
  proof (intro ballI impI)
    fix f assume m: "f \<in> set (files (queue s))" and "id' f = i"
    then have "statusOf s i = Some (status f)" using statusOf_member[OF w m] by simp
    then show "status f \<noteq> Uploading" using assms(2) by auto
  qed
  have u: "length (filter (\<lambda>f. status f = Uploading) ?fs) = uploading s"
    using filter_other_count[OF no] by (simp add: uploading_def)
  show ?thesis
    using tracking_next_queue[OF assms(1) d f u]
    by (simp add: cancelUpload_def removeFromQueue_def)
qed

lemma tracking_ClearCompleted:
  assumes "tracking s"
  shows "tracking (step s ClearCompleted)"
proof -
  have w: "wellformed s" using assms(1) by (simp add: tracking_def)
  let ?fs = "filter (\<lambda>f. status f = Pending \<or> status f = Uploading) (files (queue s))"
  have d: "distinct (map id' ?fs)"
    using w by (simp add: wellformed_def ids_def distinct_map_filter)
  have f: "\<forall>f \<in> set ?fs. file' f \<noteq> None" using w by (simp add: wellformed_def)
  have "filter (\<lambda>f. status f = Uploading) ?fs = filter (\<lambda>f. status f = Uploading) (files (queue s))"
    by (induction "files (queue s)") (auto intro: filter_cong)
  then have u: "length (filter (\<lambda>f. status f = Uploading) ?fs) = uploading s"
    by (simp add: uploading_def)
  show ?thesis
    using tracking_next_queue[OF assms(1) d f u]
    by (simp add: clearCompletedUploads_def)
qed

lemma tracking_CancelAll: "tracking (step s CancelAll)"
  by (simp add: cancelAllUploads_def Let_def next_queue_def tracking_def wellformed_def
      ids_def uploading_def)

lemma find_findIndex:
  "findIndex i fs = Some k \<Longrightarrow> find (\<lambda>f. id' f = i) fs = Some (fs ! k)"
  by (induction fs arbitrary: k) (auto split: if_splits)

lemma tracking_in_place:
  assumes "tracking s" and "findIndex i (files (queue s)) = Some k"
    and "\<And>f. id' (g f) = id' f" and "\<And>f. file' (g f) = file' f"
    and "status (files (queue s) ! k) \<noteq> Uploading \<and> status (g (files (queue s) ! k)) \<noteq> Uploading
         \<or> status (g (files (queue s) ! k)) = status (files (queue s) ! k)"
  shows "distinct (map id' ((files (queue s))[k := g (files (queue s) ! k)]))"
    and "\<forall>f \<in> set ((files (queue s))[k := g (files (queue s) ! k)]). file' f \<noteq> None"
    and "length (filter (\<lambda>f. status f = Uploading) ((files (queue s))[k := g (files (queue s) ! k)]))
           = uploading s"
proof -
  let ?fs = "files (queue s)"
  have w: "wellformed s" using assms(1) by (simp add: tracking_def)
  have d: "distinct (map id' ?fs)" using w by (simp add: wellformed_def ids_def)
  have m: "?fs[k := g (?fs ! k)] = map (\<lambda>f. if id' f = i then g f else f) ?fs"
    using update_at_findIndex[OF d assms(2)] .
  have idm: "map id' (map (\<lambda>f. if id' f = i then g f else f) ?fs) = map id' ?fs"
    by (simp add: assms(3) comp_def cong: map_cong)
  show "distinct (map id' (?fs[k := g (?fs ! k)]))" using d by (simp only: m idm)
  show "\<forall>f \<in> set (?fs[k := g (?fs ! k)]). file' f \<noteq> None"
    using w unfolding m by (auto simp: wellformed_def assms(4))
  have "length (filter (\<lambda>f. status f = Uploading) (map (\<lambda>f. if id' f = i then g f else f) ?fs))
           + (if status (?fs ! k) = Uploading then 1 else 0)
         = length (filter (\<lambda>f. status f = Uploading) ?fs)
           + (if status (g (?fs ! k)) = Uploading then 1 else 0)"
    by (rule count_map_update[OF d find_findIndex[OF assms(2)]])
  then show "length (filter (\<lambda>f. status f = Uploading) (?fs[k := g (?fs ! k)])) = uploading s"
    using assms(5) unfolding m by (auto simp: uploading_def split: if_splits)
qed

lemma tracking_Retry:
  assumes "tracking s"
  shows "tracking (step s (Retry i))"
proof (cases "findIndex i (files (queue s))")
  case None
  then show ?thesis using assms by (simp add: retryUpload_def)
next
  case (Some k)
  show ?thesis
  proof (cases "status (files (queue s) ! k) = Failed")
    case False
    then show ?thesis using assms Some by (simp add: retryUpload_def)
  next
    case True
    let ?g = "\<lambda>f. f\<lparr>status := Pending, progress := 0, error := None\<rparr>"
    let ?fs = "(files (queue s))[k := ?g (files (queue s) ! k)]"
    let ?s1 = "s\<lparr>queue := (queue s)\<lparr>files := ?fs\<rparr>\<rparr>"
    note ip = tracking_in_place[OF assms Some, of ?g]
    have "tracking ?s1"
      using assms ip True
      by (auto simp: tracking_def wellformed_def ids_def uploading_def)
    then have "tracking (processUploadQueue ?s1)" by (rule tracking_processUploadQueue)
    then show ?thesis using Some True by (simp add: retryUpload_def Let_def)
  qed
qed

lemma tracking_HttpProgress:
  assumes "tracking s"
  shows "tracking (step s (HttpProgress i l t))"
proof (cases "findIndex i (files (queue s))")
  case None
  then show ?thesis using assms by (simp add: onProgress_def updateFileProgress_def)
next
  case (Some k)
  let ?g = "\<lambda>f. f\<lparr>progress := (200 * l + t) div (2 * t)\<rparr>"
  note ip = tracking_in_place[OF assms Some, of ?g]
  have "tracking (next_queue ((queue s)\<lparr>files := (files (queue s))[k := ?g (files (queue s) ! k)]\<rparr>) s)"
    using ip by (intro tracking_next_queue[OF assms]) simp_all
  then show ?thesis using Some assms
    by (simp add: onProgress_def updateFileProgress_def Let_def)
qed

lemma uploading_fields:
  "uploading (s\<lparr>completed := c\<rparr>) = uploading s"
  "uploading (decrementActiveUploads s) = uploading s"
  by (simp_all add: uploading_def decrementActiveUploads_def next_queue_def)

lemma tracking_HttpResponse:
  assumes "tracking s" and "tracked s (HttpResponse i r)"
  shows "tracking (step s (HttpResponse i r))"
proof -
  have w: "wellformed s" using assms(1) by (simp add: tracking_def)
  have up: "statusOf s i = Some Uploading" using assms(2) by simp
  let ?s1 = "settled i r s"
  let ?s2 = "decrementActiveUploads ?s1"
  have u1: "int (uploading ?s1) = int (uploading s) - 1"
    using uploading_updateFileStatus[OF w up]
    by (simp add: settled_def uploading_fields)
  have w2: "wellformed ?s2" using w by (simp add: decrement_reads wellformed_settled)
  have a1: "activeUploads (queue ?s1) = int (uploading s)"
    using assms(1) by (simp add: settled_reads tracking_def)
  have pos: "1 \<le> int (uploading s)" using u1 by linarith
  have "tracking ?s2"
    using w2 a1 u1 pos
    by (auto simp: tracking_def uploading_fields decrement_reads)
  then have "tracking (processUploadQueue ?s2)" by (rule tracking_processUploadQueue)
  then show ?thesis by (simp add: onResponse_settled)
qed

lemma tracking_step:
  assumes "tracking s" and "tracked s e"
  shows "tracking (step s e)"
proof (cases e)
  case (AddFiles cs)
  then show ?thesis using assms tracking_AddFiles by blast
next
  case StartAll
  then show ?thesis using assms(1) by (simp add: startAllUploads_def tracking_processUploadQueue)
next
  case (StartById i)
  then show ?thesis using assms(1) tracking_StartById by blast
next
  case (Cancel i)
  then show ?thesis using assms tracking_Cancel by blast
next
  case CancelAll
  then show ?thesis using tracking_CancelAll by blast
next
  case (Retry i)
  then show ?thesis using assms(1) tracking_Retry by blast
next
  case ClearCompleted
  then show ?thesis using assms(1) tracking_ClearCompleted by blast
next
  case (HttpProgress i l t)
  then show ?thesis using assms(1) tracking_HttpProgress by blast
next
  case (HttpResponse i r)
  then show ?thesis using assms tracking_HttpResponse by blast
next
  case (HttpFailure i err)
  then show ?thesis using assms(2) by simp
qed

lemma tracking_run:
  assumes "tracking s" and "tracked_run s evs"
  shows "tracking (run s evs)"
  using assms unfolding run_def
proof (induction evs arbitrary: s)
  case Nil
  then show ?case by simp
next
  case (Cons e evs)
  then show ?case using tracking_step[of s e] by simp
qed

lemma tracking_initial: "tracking initialService"
  by (simp add: tracking_def initialService_def initialQueue_def wellformed_def ids_def
      uploading_def)


subsection \<open>The counter stays within the limit\<close>

text \<open>
  The bound needs nothing of the queue, not even different ids: the scheduler starts at
  most as many tasks as it found free slots, every other path lowers the counter or
  leaves it, and \<open>startUploadById\<close> raises it by one.
\<close>

lemma bounded_updateFileStatus: "bounded s \<Longrightarrow> bounded (updateFileStatus i st e s)"
  by (auto simp: bounded_def updateFileStatus_def Let_def next_queue_def split: option.splits)

lemma bounded_updateFileProgress: "bounded s \<Longrightarrow> bounded (updateFileProgress i p s)"
  by (auto simp: bounded_def updateFileProgress_def Let_def next_queue_def split: option.splits)

lemma bounded_fields:
  "bounded (s\<lparr>completed := c\<rparr>) = bounded s"
  "bounded (s\<lparr>requests := r\<rparr>) = bounded s"
  "bounded (s\<lparr>alerts := a\<rparr>) = bounded s"
  by (simp_all add: bounded_def)

lemma bounded_files:
  "bounded s \<Longrightarrow> bounded (next_queue ((queue s)\<lparr>files := fs\<rparr>) s)"
  by (auto simp: bounded_def next_queue_def)

lemma bounded_decrement: "bounded s \<Longrightarrow> bounded (decrementActiveUploads s)"
  by (auto simp: bounded_def decrementActiveUploads_def next_queue_def)

lemma bounded_increment:
  "bounded s \<Longrightarrow> activeUploads (queue s) < maxConcurrent (queue s)
   \<Longrightarrow> bounded (incrementActiveUploads s)"
  by (auto simp: bounded_def incrementActiveUploads_def next_queue_def)

lemma increment_reads:
  "activeUploads (queue (incrementActiveUploads s)) = activeUploads (queue s) + 1"
  "maxConcurrent (queue (incrementActiveUploads s)) = maxConcurrent (queue s)"
  by (simp_all add: incrementActiveUploads_def next_queue_def)

lemma startSingleUpload_counter:
  "activeUploads (queue (startSingleUpload fu s)) \<le> activeUploads (queue s) + 1"
  "maxConcurrent (queue (startSingleUpload fu s)) = maxConcurrent (queue s)"
  by (cases "file' fu";
      simp add: startSingleUpload_def Let_def other_updateFileStatus increment_reads)+

lemma bounded_startSingleUpload:
  assumes "bounded s" and "activeUploads (queue s) < maxConcurrent (queue s)"
  shows "bounded (startSingleUpload fu s)"
proof (cases "file' fu")
  case None
  then show ?thesis using assms(1) by (simp add: startSingleUpload_def bounded_updateFileStatus)
next
  case (Some f)
  let ?s1 = "updateFileStatus (id' fu) Uploading None s"
  have "bounded ?s1" using assms(1) by (rule bounded_updateFileStatus)
  moreover have "activeUploads (queue ?s1) < maxConcurrent (queue ?s1)"
    using assms(2) by (simp add: other_updateFileStatus)
  ultimately have "bounded (incrementActiveUploads ?s1)" by (rule bounded_increment)
  then show ?thesis using Some by (simp add: startSingleUpload_def Let_def bounded_fields)
qed

lemma bounded_start_many:
  assumes "bounded s"
    and "activeUploads (queue s) + int (length P) \<le> maxConcurrent (queue s)"
  shows "bounded (foldl (\<lambda>t fu. startSingleUpload fu t) s P)"
  using assms
proof (induction P arbitrary: s)
  case Nil
  then show ?case by simp
next
  case (Cons fu P)
  have lt: "activeUploads (queue s) < maxConcurrent (queue s)" using Cons.prems(2) by simp
  have b1: "bounded (startSingleUpload fu s)"
    using bounded_startSingleUpload[OF Cons.prems(1) lt] .
  have a1: "activeUploads (queue (startSingleUpload fu s)) + int (length P)
              \<le> maxConcurrent (queue (startSingleUpload fu s))"
    using Cons.prems(2) startSingleUpload_counter[of fu s] by simp
  from Cons.IH[OF b1 a1] show ?case by simp
qed

lemma bounded_processUploadQueue:
  assumes "bounded s"
  shows "bounded (processUploadQueue s)"
proof (cases "maxConcurrent (queue s) - activeUploads (queue s) > 0
              \<and> length (filter (\<lambda>f. status f = Pending) (files (queue s))) > 0")
  case True
  let ?P = "take (nat (maxConcurrent (queue s) - activeUploads (queue s)))
              (filter (\<lambda>f. status f = Pending) (files (queue s)))"
  have run: "processUploadQueue s = foldl (\<lambda>t fu. startSingleUpload fu t) s ?P"
    using True by (simp add: processUploadQueue_def Let_def)
  have "length ?P \<le> nat (maxConcurrent (queue s) - activeUploads (queue s))" by simp
  then have a: "activeUploads (queue s) + int (length ?P) \<le> maxConcurrent (queue s)"
    using True by linarith
  show ?thesis unfolding run by (rule bounded_start_many[OF assms a])
next
  case False
  then have "processUploadQueue s = s" by (auto simp: processUploadQueue_def Let_def)
  then show ?thesis using assms by simp
qed

lemma bounded_handleUploadError: "bounded s \<Longrightarrow> bounded (handleUploadError i e s)"
  by (simp add: handleUploadError_def bounded_processUploadQueue bounded_decrement
      bounded_updateFileStatus)

lemma bounded_step:
  assumes "bounded s" and "within_limit s e"
  shows "bounded (step s e)"
proof (cases e)
  case (AddFiles cs)
  let ?s1 = "if errors cs \<noteq> [] then s\<lparr>alerts := alerts s @ [errors cs]\<rparr> else s"
  have "bounded ?s1" using assms(1) by (simp add: bounded_fields)
  then have "bounded (next_queue ((queue ?s1)\<lparr>files := files (queue ?s1) @ validFiles cs\<rparr>) ?s1)"
    by (rule bounded_files)
  then show ?thesis using AddFiles by (simp add: addFilesToQueue_def Let_def)
next
  case StartAll
  then show ?thesis using assms(1) by (simp add: startAllUploads_def bounded_processUploadQueue)
next
  case (StartById i)
  then have lt: "activeUploads (queue s) < maxConcurrent (queue s)" using assms(2) by simp
  show ?thesis using StartById assms(1) bounded_startSingleUpload[OF assms(1) lt]
    by (simp add: startUploadById_def split: option.splits)
next
  case (Cancel i)
  then show ?thesis using assms(1) by (simp add: cancelUpload_def removeFromQueue_def bounded_files)
next
  case CancelAll
  let ?s1 = "foldl (\<lambda>t f. if status f = Pending \<or> status f = Uploading
                             then updateFileStatus (id' f) Failed (Some ''Cancelled by user'') t
                             else t) s (files (queue s))"
  have "bounded ?s1"
    by (rule foldl_preserves[where P = bounded]) (auto simp: assms(1) bounded_updateFileStatus)
  then show ?thesis using CancelAll
    by (auto simp: cancelAllUploads_def Let_def next_queue_def bounded_def
        MAX_CONCURRENT_UPLOADS_def)
next
  case (Retry i)
  have "bounded (s\<lparr>queue := (queue s)\<lparr>files := fs\<rparr>\<rparr>)" for fs
    using assms(1) by (auto simp: bounded_def)
  then show ?thesis using Retry assms(1)
    by (simp add: retryUpload_def Let_def bounded_processUploadQueue split: option.splits)
next
  case ClearCompleted
  then show ?thesis using assms(1) by (simp add: clearCompletedUploads_def bounded_files)
next
  case (HttpProgress i l t)
  then show ?thesis using assms(1) by (simp add: onProgress_def bounded_updateFileProgress)
next
  case (HttpResponse i r)
  have "bounded (settled i r s)"
    using assms(1) by (simp add: settled_def bounded_fields bounded_updateFileStatus)
  then show ?thesis using HttpResponse
    by (simp add: onResponse_settled bounded_processUploadQueue bounded_decrement)
next
  case (HttpFailure i err)
  have "onError i err s = handleUploadError i err (handleUploadError i err s)"
    by (simp add: onError_def handleUploadError_def Let_def)
  then show ?thesis using HttpFailure assms(1) by (simp add: bounded_handleUploadError)
qed

lemma bounded_run:
  assumes "bounded s" and "within_limit_run s evs"
  shows "bounded (run s evs)"
  using assms unfolding run_def
proof (induction evs arbitrary: s)
  case Nil
  then show ?case by simp
next
  case (Cons e evs)
  then show ?case using bounded_step[of s e] by simp
qed

lemma bounded_initial: "bounded initialService"
  by (simp add: bounded_def initialService_def initialQueue_def MAX_CONCURRENT_UPLOADS_def)

subsection \<open>Concrete runs\<close>

lemma step_five: "step initialService (AddFiles five_files) = five_pending"
  by (simp add: five_pending_def run_def)

lemma step_three: "step five_pending StartAll = three_running"
  by (simp add: three_running_def run_def)

lemma one_settled_queue:
  "queue (step three_running (HttpResponse ''t1'' ok_response)) =
     \<lparr>files = [(mkFileUpload (doc ''a.pdf'', ''t1''))\<lparr>status := Success\<rparr>,
               (mkFileUpload (doc ''b.pdf'', ''t2''))\<lparr>status := Uploading\<rparr>,
               (mkFileUpload (doc ''c.txt'', ''t3''))\<lparr>status := Uploading\<rparr>,
               (mkFileUpload (doc ''d.docx'', ''t4''))\<lparr>status := Uploading\<rparr>,
               mkFileUpload (doc ''e.pdf'', ''t5'')],
      activeUploads = 3, maxConcurrent = 3\<rparr>"
  by (simp add: onResponse_def ok_response_def processUploadQueue_def decrementActiveUploads_def
      three_running_queue Let_def mkFileUpload_def startSingleUpload_def updateFileStatus_def
      incrementActiveUploads_def next_queue_def or_error_def falsy_def)

lemma tracked_backfill_run: "tracked_run initialService backfill_run"
proof -
  have a: "tracked initialService (AddFiles five_files)"
    by (simp add: five_files_def ids_def initialService_def initialQueue_def)
  have b: "tracked three_running (HttpResponse ''t1'' ok_response)"
    by (simp add: statusOf_def three_running_queue mkFileUpload_def)
  have c: "tracked five_pending StartAll" by simp
  show ?thesis
    by (simp add: backfill_run_def a b c step_five step_three del: tracked.simps step.simps)
qed


text \<open>
  Two runs outside. \<open>startUploadById\<close> does not look at the free slots: four files
  started one by one leave the counter at 4, above the limit. A request that fails in
  transport is handled by \<open>handleUploadError\<close> and then by the subscriber's error
  callback, so the counter goes down twice and the scheduler fills two slots: four
  tasks are uploading while the counter says 3.
\<close>

lemma start_by_id_over_limit:
  "activeUploads (queue (run initialService over_limit_run)) = 4 \<and>
   maxConcurrent (queue (run initialService over_limit_run)) = 3 \<and>
   uploading (run initialService over_limit_run) = 4"
proof -
  have r: "run initialService over_limit_run =
      run five_pending [StartById ''t1'', StartById ''t2'', StartById ''t3'', StartById ''t4'']"
    by (simp add: over_limit_run_def run_def step_five del: step.simps)
  have q: "queue (run five_pending [StartById ''t1'', StartById ''t2'', StartById ''t3'', StartById ''t4'']) =
     \<lparr>files = [(mkFileUpload (doc ''a.pdf'', ''t1''))\<lparr>status := Uploading\<rparr>,
               (mkFileUpload (doc ''b.pdf'', ''t2''))\<lparr>status := Uploading\<rparr>,
               (mkFileUpload (doc ''c.txt'', ''t3''))\<lparr>status := Uploading\<rparr>,
               (mkFileUpload (doc ''d.docx'', ''t4''))\<lparr>status := Uploading\<rparr>,
               mkFileUpload (doc ''e.pdf'', ''t5'')],
      activeUploads = 4, maxConcurrent = 3\<rparr>"
    by (simp add: run_def startUploadById_def five_pending_queue Let_def mkFileUpload_def
        startSingleUpload_def updateFileStatus_def incrementActiveUploads_def next_queue_def
        or_error_def falsy_def)
  show ?thesis unfolding r by (simp add: q uploading_def mkFileUpload_def)
qed

lemma failure_decrements_twice:
  "map status (files (queue (step three_running (HttpFailure ''t1'' network_down)))) =
     [Failed, Uploading, Uploading, Uploading, Uploading] \<and>
   activeUploads (queue (step three_running (HttpFailure ''t1'' network_down))) = 3"
  by (simp add: onError_def handleUploadError_def network_down_def getErrorMessage_def
      processUploadQueue_def decrementActiveUploads_def
      three_running_queue Let_def mkFileUpload_def startSingleUpload_def updateFileStatus_def
      incrementActiveUploads_def next_queue_def or_error_def falsy_def)

lemma filter_map_status:
  "length (filter (\<lambda>f. status f = st) fs) = length (filter (\<lambda>x. x = st) (map status fs))"
  by (induction fs) auto

lemma one_started_emitted:
  "emitted (run initialService [AddFiles [(doc ''a.pdf'', ''t1'')], StartAll]) =
     [initialQueue,
      \<lparr>files = [mkFileUpload (doc ''a.pdf'', ''t1'')], activeUploads = 0, maxConcurrent = 3\<rparr>,
      \<lparr>files = [(mkFileUpload (doc ''a.pdf'', ''t1''))\<lparr>status := Uploading\<rparr>],
       activeUploads = 0, maxConcurrent = 3\<rparr>,
      \<lparr>files = [(mkFileUpload (doc ''a.pdf'', ''t1''))\<lparr>status := Uploading\<rparr>],
       activeUploads = 1, maxConcurrent = 3\<rparr>]"
  by (simp add: run_def addFilesToQueue_def validFiles_def errors_def doc_pdf_valid
      startAllUploads_def processUploadQueue_def Let_def mkFileUpload_def startSingleUpload_def
      updateFileStatus_def incrementActiveUploads_def next_queue_def or_error_def falsy_def
      initialService_def initialQueue_def MAX_CONCURRENT_UPLOADS_def)

lemma by_hand_queues:
  "queue (step five_pending (StartById ''t1'')) =
     \<lparr>files = [(mkFileUpload (doc ''a.pdf'', ''t1''))\<lparr>status := Uploading\<rparr>,
               mkFileUpload (doc ''b.pdf'', ''t2''), mkFileUpload (doc ''c.txt'', ''t3''),
               mkFileUpload (doc ''d.docx'', ''t4''), mkFileUpload (doc ''e.pdf'', ''t5'')],
      activeUploads = 1, maxConcurrent = 3\<rparr>"
  "queue (step (step five_pending (StartById ''t1'')) (StartById ''t2'')) =
     \<lparr>files = [(mkFileUpload (doc ''a.pdf'', ''t1''))\<lparr>status := Uploading\<rparr>,
               (mkFileUpload (doc ''b.pdf'', ''t2''))\<lparr>status := Uploading\<rparr>,
               mkFileUpload (doc ''c.txt'', ''t3''),
               mkFileUpload (doc ''d.docx'', ''t4''), mkFileUpload (doc ''e.pdf'', ''t5'')],
      activeUploads = 2, maxConcurrent = 3\<rparr>"
  by (simp_all add: startUploadById_def five_pending_queue Let_def mkFileUpload_def
        startSingleUpload_def updateFileStatus_def incrementActiveUploads_def next_queue_def
        or_error_def falsy_def)

lemma within_limit_mixed_run: "within_limit_run initialService mixed_run"
  by (simp add: mixed_run_def step_five five_pending_queue by_hand_queues del: step.simps)

lemma tracked_over_limit_run: "tracked_run initialService over_limit_run"
proof -
  have a: "tracked initialService (AddFiles five_files)"
    by (simp add: five_files_def ids_def initialService_def initialQueue_def)
  show ?thesis
    by (simp add: over_limit_run_def a del: tracked.simps(1) step.simps)
qed

lemma mixed_queue_started:
  "queue (step (step (step (step five_pending (StartById ''t1'')) (StartById ''t2''))
            (Cancel ''t1'')) StartAll) =
     \<lparr>files = [(mkFileUpload (doc ''b.pdf'', ''t2''))\<lparr>status := Uploading\<rparr>,
               (mkFileUpload (doc ''c.txt'', ''t3''))\<lparr>status := Uploading\<rparr>,
               mkFileUpload (doc ''d.docx'', ''t4''), mkFileUpload (doc ''e.pdf'', ''t5'')],
      activeUploads = 3, maxConcurrent = 3\<rparr>"
  by (simp add: by_hand_queues cancelUpload_def removeFromQueue_def
        startAllUploads_def processUploadQueue_def
        Let_def mkFileUpload_def startSingleUpload_def updateFileStatus_def
        incrementActiveUploads_def next_queue_def or_error_def falsy_def del: step.simps(3))

lemma mixed_run_queue:
  "queue (run initialService mixed_run) =
     \<lparr>files = [(mkFileUpload (doc ''b.pdf'', ''t2''))\<lparr>status := Failed, error := Some ''Network error''\<rparr>,
               (mkFileUpload (doc ''c.txt'', ''t3''))\<lparr>status := Uploading\<rparr>,
               (mkFileUpload (doc ''d.docx'', ''t4''))\<lparr>status := Uploading\<rparr>,
               (mkFileUpload (doc ''e.pdf'', ''t5''))\<lparr>status := Uploading\<rparr>],
      activeUploads = 3, maxConcurrent = 3\<rparr>"
proof -
  let ?s = "step (step (step (step five_pending (StartById ''t1'')) (StartById ''t2''))
            (Cancel ''t1'')) StartAll"
  have r: "run initialService mixed_run = onError ''t2'' network_down ?s"
    by (simp add: mixed_run_def run_def step_five del: step.simps)
       (simp del: step.simps(1-9))
  show ?thesis
    unfolding r
    by (simp add: onError_def handleUploadError_def network_down_def getErrorMessage_def
      processUploadQueue_def decrementActiveUploads_def
      mixed_queue_started Let_def mkFileUpload_def startSingleUpload_def updateFileStatus_def
      incrementActiveUploads_def next_queue_def or_error_def falsy_def del: step.simps)
qed

lemma mixed_run_statuses:
  "map status (files (queue (run initialService mixed_run))) =
     [Failed, Uploading, Uploading, Uploading]"
  by (simp add: mixed_run_queue)

subsection \<open>What starts an upload\<close>

text \<open>
  Admission, cancelling, clearing and progress events issue no request and mark no task
  uploading. The scheduler runs after the counter has been decremented, on a response
  and, twice, on an error of the transport.
\<close>

lemma uploadingIds_update:
  assumes "k < length fs" and "status (g (fs ! k)) = status (fs ! k)" and "id' (g (fs ! k)) = id' (fs ! k)"
  shows "set (map id' (filter (\<lambda>f. status f = Uploading) (fs[k := g (fs ! k)])))
         \<subseteq> set (map id' (filter (\<lambda>f. status f = Uploading) fs))"
proof
  fix x assume "x \<in> set (map id' (filter (\<lambda>f. status f = Uploading) (fs[k := g (fs ! k)])))"
  then obtain f where f: "f \<in> set (fs[k := g (fs ! k)])" "status f = Uploading" "id' f = x"
    by auto
  from f(1) have "f = g (fs ! k) \<or> f \<in> set fs"
    using set_update_subset_insert[of fs k "g (fs ! k)"] by auto
  then show "x \<in> set (map id' (filter (\<lambda>f. status f = Uploading) fs))"
  proof
    assume e: "f = g (fs ! k)"
    have "fs ! k \<in> set fs" using assms(1) by simp
    moreover have "status (fs ! k) = Uploading" using e f(2) assms(2) by simp
    moreover have "id' (fs ! k) = x" using e f(3) assms(3) by simp
    ultimately show ?thesis by force
  next
    assume "f \<in> set fs"
    then show ?thesis using f(2,3) by force
  qed
qed

lemma quiet_step:
  assumes "\<not> may_start e"
  shows "requests (step s e) = requests s \<and> set (uploadingIds (step s e)) \<subseteq> set (uploadingIds s)"
proof (cases e)
  case (AddFiles cs)
  then show ?thesis
    by (auto simp: uploadingIds_def addFilesToQueue_def Let_def next_queue_def validFiles_def
        mkFileUpload_def)
next
  case StartAll
  then show ?thesis using assms by simp
next
  case (StartById i)
  then show ?thesis using assms by simp
next
  case (Cancel i)
  then show ?thesis
    by (auto simp: uploadingIds_def cancelUpload_def removeFromQueue_def next_queue_def)
next
  case CancelAll
  let ?s1 = "foldl (\<lambda>t f. if status f = Pending \<or> status f = Uploading
                             then updateFileStatus (id' f) Failed (Some ''Cancelled by user'') t
                             else t) s (files (queue s))"
  have "requests ?s1 = requests s"
    by (rule foldl_preserves[where P = "\<lambda>t. requests t = requests s"])
       (simp_all add: other_updateFileStatus)
  then show ?thesis using CancelAll
    by (simp add: uploadingIds_def cancelAllUploads_def Let_def next_queue_def)
next
  case (Retry i)
  then show ?thesis using assms by simp
next
  case ClearCompleted
  then show ?thesis
    by (auto simp: uploadingIds_def clearCompletedUploads_def next_queue_def)
next
  case (HttpProgress i l t)
  show ?thesis
  proof (cases "t \<noteq> 0 \<and> findIndex i (files (queue s)) \<noteq> None")
    case False
    then show ?thesis using HttpProgress
      by (auto simp: onProgress_def updateFileProgress_def Let_def)
  next
    case True
    then obtain k where k: "findIndex i (files (queue s)) = Some k" by auto
    then have kl: "k < length (files (queue s))" using findIndex_Some by blast
    let ?g = "\<lambda>f. f\<lparr>progress := (200 * l + t) div (2 * t)\<rparr>"
    have st: "step s e = next_queue ((queue s)\<lparr>files := (files (queue s))[k := ?g (files (queue s) ! k)]\<rparr>) s"
      using HttpProgress True k by (simp add: onProgress_def updateFileProgress_def Let_def)
    have "set (map id' (filter (\<lambda>f. status f = Uploading) ((files (queue s))[k := ?g (files (queue s) ! k)])))
         \<subseteq> set (map id' (filter (\<lambda>f. status f = Uploading) (files (queue s))))"
      by (rule uploadingIds_update[OF kl]) simp_all
    then show ?thesis unfolding st by (simp add: uploadingIds_def next_queue_def)
  qed
next
  case (HttpResponse i r)
  then show ?thesis using assms by simp
next
  case (HttpFailure i err)
  then show ?thesis using assms by simp
qed

lemma quiet_run:
  assumes "\<forall>e \<in> set evs. \<not> may_start e"
  shows "requests (run s evs) = requests s \<and> set (uploadingIds (run s evs)) \<subseteq> set (uploadingIds s)"
  using assms unfolding run_def
proof (induction evs arbitrary: s)
  case Nil
  then show ?case by simp
next
  case (Cons e evs)
  have a: "requests (step s e) = requests s \<and> set (uploadingIds (step s e)) \<subseteq> set (uploadingIds s)"
    using Cons.prems by (intro quiet_step) simp
  have b: "requests (foldl step (step s e) evs) = requests (step s e) \<and>
           set (uploadingIds (foldl step (step s e) evs)) \<subseteq> set (uploadingIds (step s e))"
    using Cons.prems by (intro Cons.IH) simp
  show ?case using a b by (simp del: step.simps) blast
qed

lemma backfill_after_decrement:
  assumes "wellformed t"
  shows "requests (processUploadQueue (decrementActiveUploads t)) =
           requests t @ take (freed t) (pendingIds t)"
    and "files (queue (processUploadQueue (decrementActiveUploads t))) =
           mark (take (freed t) (pendingIds t)) (files (queue t))"
proof -
  let ?t = "decrementActiveUploads t"
  have w: "wellformed ?t" using assms by (simp add: decrement_reads)
  have s: "slots ?t = freed t" by (simp add: slots_def freed_def decrement_reads)
  show "requests (processUploadQueue ?t) = requests t @ take (freed t) (pendingIds t)"
    using processUploadQueue_effect[OF w] by (simp add: s decrement_reads)
  show "files (queue (processUploadQueue ?t)) = mark (take (freed t) (pendingIds t)) (files (queue t))"
    using processUploadQueue_effect[OF w] by (simp add: s decrement_reads)
qed

lemma response_backfill:
  assumes "wellformed s" and "i \<notin> set (pendingIds s)"
  shows "requests (onResponse i r s) = requests s @ take (freed s) (pendingIds s)"
    and "files (queue (onResponse i r s)) =
           mark (take (freed s) (pendingIds s)) (files (queue (settled i r s)))"
proof -
  have f: "freed (settled i r s) = freed s" by (simp add: freed_def settled_reads)
  note b = backfill_after_decrement[OF wellformed_settled[OF assms(1), of i r]]
  show "requests (onResponse i r s) = requests s @ take (freed s) (pendingIds s)"
    using b(1) assms f by (simp add: onResponse_settled settled_reads pendingIds_settled)
  show "files (queue (onResponse i r s)) =
           mark (take (freed s) (pendingIds s)) (files (queue (settled i r s)))"
    using b(2) assms f by (simp add: onResponse_settled pendingIds_settled)
qed

lemma handleUploadError_backfill:
  assumes "wellformed s" and "i \<notin> set (pendingIds s)"
  shows "requests (handleUploadError i e s) = requests s @ take (freed s) (pendingIds s)"
proof -
  let ?t = "updateFileStatus i Failed (Some (getErrorMessage e)) s"
  have "freed ?t = freed s" by (simp add: freed_def other_updateFileStatus)
  then show ?thesis
    using backfill_after_decrement(1)[OF wellformed_updateFileStatus[OF assms(1), of i Failed "Some (getErrorMessage e)"]] assms
    by (simp add: handleUploadError_def other_updateFileStatus pendingIds_updateFileStatus)
qed

lemma wellformed_processUploadQueue:
  assumes "wellformed s"
  shows "wellformed (processUploadQueue s)"
proof -
  have "\<forall>f \<in> set (mark P (files (queue s))). file' f \<noteq> None" for P
    using assms by (auto simp: wellformed_def mark_def)
  then show ?thesis
    using processUploadQueue_effect[OF assms] assms
    by (simp add: wellformed_def ids_processUploadQueue)
qed

lemma pendingIds_processUploadQueue:
  assumes "wellformed s"
  shows "set (pendingIds (processUploadQueue s)) \<subseteq> set (pendingIds s)"
  using processUploadQueue_effect[OF assms]
  by (auto simp: pendingIds_def mark_def split: if_splits)

lemma failure_backfill:
  assumes "wellformed s" and "i \<notin> set (pendingIds s)"
  shows "requests (onError i e s) =
           requests s @ take (freed s) (pendingIds s) @
           take (freed (handleUploadError i e s)) (pendingIds (handleUploadError i e s))"
proof -
  let ?h = "handleUploadError i e s"
  let ?t = "decrementActiveUploads (updateFileStatus i Failed (Some (getErrorMessage e)) s)"
  have wt: "wellformed ?t" using assms(1) by (simp add: decrement_reads wellformed_updateFileStatus)
  have pt: "pendingIds ?t = pendingIds s"
    using assms by (simp add: decrement_reads pendingIds_updateFileStatus)
  have h: "?h = processUploadQueue ?t" by (simp add: handleUploadError_def)
  have wh: "wellformed ?h" unfolding h using wt by (rule wellformed_processUploadQueue)
  have ph: "i \<notin> set (pendingIds ?h)"
    unfolding h using pendingIds_processUploadQueue[OF wt] pt assms(2) by auto
  have o: "onError i e s = handleUploadError i e ?h"
    by (simp add: onError_def handleUploadError_def Let_def)
  show ?thesis
    unfolding o
    by (simp add: handleUploadError_backfill[OF wh ph] handleUploadError_backfill[OF assms])
qed

lemma one_by_hand_step: "step five_pending (StartById ''t1'') = one_by_hand"
  by (simp add: one_by_hand_def run_def)

lemma one_by_hand_reads:
  "wellformed one_by_hand"
  "pendingIds one_by_hand = [''t2'', ''t3'', ''t4'', ''t5'']"
  "freed one_by_hand = 3"
  "requests one_by_hand = [''t1'']"
proof -
  have q: "queue one_by_hand =
     \<lparr>files = [(mkFileUpload (doc ''a.pdf'', ''t1''))\<lparr>status := Uploading\<rparr>,
               mkFileUpload (doc ''b.pdf'', ''t2''), mkFileUpload (doc ''c.txt'', ''t3''),
               mkFileUpload (doc ''d.docx'', ''t4''), mkFileUpload (doc ''e.pdf'', ''t5'')],
      activeUploads = 1, maxConcurrent = 3\<rparr>"
    using by_hand_queues(1) by (simp only: one_by_hand_step)
  show "wellformed one_by_hand" "pendingIds one_by_hand = [''t2'', ''t3'', ''t4'', ''t5'']"
    "freed one_by_hand = 3"
    by (simp_all add: wellformed_def ids_def pendingIds_def freed_def q mkFileUpload_def)
  show "requests one_by_hand = [''t1'']"
    by (simp add: one_by_hand_def run_def startUploadById_def five_pending_queue Let_def
        mkFileUpload_def startSingleUpload_def updateFileStatus_def incrementActiveUploads_def
        next_queue_def or_error_def falsy_def)
qed

lemma one_by_hand_failed:
  "queue (handleUploadError ''t1'' network_down one_by_hand) =
     \<lparr>files = [(mkFileUpload (doc ''a.pdf'', ''t1''))\<lparr>status := Failed, error := Some ''Network error''\<rparr>,
               (mkFileUpload (doc ''b.pdf'', ''t2''))\<lparr>status := Uploading\<rparr>,
               (mkFileUpload (doc ''c.txt'', ''t3''))\<lparr>status := Uploading\<rparr>,
               (mkFileUpload (doc ''d.docx'', ''t4''))\<lparr>status := Uploading\<rparr>,
               mkFileUpload (doc ''e.pdf'', ''t5'')],
      activeUploads = 3, maxConcurrent = 3\<rparr>"
proof -
  have q: "queue one_by_hand =
     \<lparr>files = [(mkFileUpload (doc ''a.pdf'', ''t1''))\<lparr>status := Uploading\<rparr>,
               mkFileUpload (doc ''b.pdf'', ''t2''), mkFileUpload (doc ''c.txt'', ''t3''),
               mkFileUpload (doc ''d.docx'', ''t4''), mkFileUpload (doc ''e.pdf'', ''t5'')],
      activeUploads = 1, maxConcurrent = 3\<rparr>"
    using by_hand_queues(1) by (simp only: one_by_hand_step)
  show ?thesis
    by (simp add: handleUploadError_def network_down_def getErrorMessage_def
      processUploadQueue_def decrementActiveUploads_def
      q Let_def mkFileUpload_def startSingleUpload_def updateFileStatus_def
      incrementActiveUploads_def next_queue_def or_error_def falsy_def)
qed

lemma one_by_hand_failed_reads:
  "pendingIds (handleUploadError ''t1'' network_down one_by_hand) = [''t5'']"
  "freed (handleUploadError ''t1'' network_down one_by_hand) = 1"
  by (simp_all add: pendingIds_def freed_def one_by_hand_failed mkFileUpload_def)

section \<open>Token lifecycle: proofs\<close>

lemma split_three: "split_dot ''h.e30.s'' = [''h'', ''e30'', ''s'']"
  by simp

lemma isAuthenticated_numeric_exp:
  assumes "1 < length (split_dot token)"
    and "decode pf (split_dot token ! 1) = Some (JObject kvs)"
    and "map_of kvs ''exp'' = Some (JNumber (Num e))"
  shows "isAuthenticated pf now (s\<lparr>access_token := Some token\<rparr>) \<longleftrightarrow> now < e * 1000"
proof -
  have "token \<noteq> []" using assms(1) by (cases token) auto
  then show ?thesis using assms
    by (auto simp: isAuthenticated_def getAccessToken_def falsy_def isTokenExpired_def
        payloadExp_def Let_def)
qed

lemma signed_in_eval:
  "signed_in =
     \<lparr>access_token = Some ''h.eyJleHAiOjEwMDB9.s'', refresh_token = Some ''r1'',
      user_data = Some (user session_response),
      currentUserSubject = Some (user session_response), isAuthenticatedSubject = True,
      refreshTokenTimer = Some (Num 880000), timerPending = True,
      posts = [LoginPost \<lparr>identifier' = ''testuser'', password = ''password123''\<rparr>],
      navigations = 0\<rparr>"
  by (simp add: signed_in_def login_def login_response_def initialClient_def test_login_def
      handleAuthSuccess_def scheduleTokenRefresh_def initialAuth_def session_response_def
      getAccessToken_def falsy_def payloadExp_def jwt_platform_def Let_def)


section \<open>Request authorization: proofs\<close>

lemma waiting_burst:
  assumes "isRefreshing c" and "refreshTokenSubject c = None"
  shows "client_run pf c (map Unauthorized ns) = c\<lparr>waiting := waiting c @ map Api ns\<rparr>"
  using assms
proof (induction ns arbitrary: c)
  case Nil
  then show ?case by (simp add: client_run_def)
next
  case (Cons n ns)
  let ?c = "c\<lparr>waiting := waiting c @ [Api n]\<rparr>"
  have s: "handle401Error (Api n) c = ?c"
    using Cons.prems by (simp add: handle401Error_def)
  have "client_run pf ?c (map Unauthorized ns) = ?c\<lparr>waiting := waiting ?c @ map Api ns\<rparr>"
    using Cons.prems by (intro Cons.IH) simp_all
  then show ?case by (simp add: client_run_def s)
qed

lemma first_unauthorized:
  assumes "\<not> isRefreshing c" and "\<not> falsy (getRefreshToken (auth c))"
  shows "handle401Error (Api n) c =
           c\<lparr>isRefreshing := True, refreshTokenSubject := None,
             auth := (auth c)\<lparr>posts := posts (auth c) @ [RefreshPost (the (getRefreshToken (auth c)))]\<rparr>,
             inflight := inflight c @
               [\<lparr>call = Refresh (the (getRefreshToken (auth c))) (Some (Api n)),
                 guarded = (\<not> falsy (getAccessToken (auth c))), rescued = False\<rparr>]\<rparr>"
  using assms
  by (simp add: handle401Error_def next_token_def refreshToken_call_def Let_def)

lemma release_waiting:
  "foldl (\<lambda>d r. resend r t d) c (map Api ns) =
     c\<lparr>delivered := delivered c @ map (\<lambda>n. (Api n, Resent t)) ns\<rparr>"
  by (induction ns arbitrary: c) simp_all

lemma refreshPosts_handleAuthSuccess:
  "filter (\<lambda>p. case p of RefreshPost t \<Rightarrow> True | _ \<Rightarrow> False) (posts (handleAuthSuccess pf now r s))
   = filter (\<lambda>p. case p of RefreshPost t \<Rightarrow> True | _ \<Rightarrow> False) (posts s)"
  by (simp add: handleAuthSuccess_def scheduleTokenRefresh_def logout_def clearTokens_def Let_def
      split: option.splits)

lemma one_refresh_for_burst:
  assumes "\<not> isRefreshing c" and "\<not> falsy (getRefreshToken (auth c))"
    and "inflight c = []" and "waiting c = []"
  shows "refreshPosts (client_run pf c (map Unauthorized (n # ns))) =
           refreshPosts c @ [RefreshPost (the (getRefreshToken (auth c)))] \<and>
         length (inflight (client_run pf c (map Unauthorized (n # ns)))) = 1 \<and>
         waiting (client_run pf c (map Unauthorized (n # ns))) = map Api ns \<and>
         delivered (client_run pf c (map Unauthorized (n # ns))) = delivered c \<and>
         refreshPosts (client_run pf c (map Unauthorized (n # ns) @ [RefreshResult 0 now (Inr r)])) =
           refreshPosts c @ [RefreshPost (the (getRefreshToken (auth c)))] \<and>
         delivered (client_run pf c (map Unauthorized (n # ns) @ [RefreshResult 0 now (Inr r)])) =
           delivered c @ map (\<lambda>m. (Api m, Resent (accessToken r))) (ns @ [n]) \<and>
         inflight (client_run pf c (map Unauthorized (n # ns) @ [RefreshResult 0 now (Inr r)])) = [] \<and>
         waiting (client_run pf c (map Unauthorized (n # ns) @ [RefreshResult 0 now (Inr r)])) = [] \<and>
         \<not> isRefreshing (client_run pf c (map Unauthorized (n # ns) @ [RefreshResult 0 now (Inr r)]))"
proof -
  let ?rt = "the (getRefreshToken (auth c))"
  let ?x = "\<lparr>call = Refresh ?rt (Some (Api n)), guarded = (\<not> falsy (getAccessToken (auth c))),
              rescued = False\<rparr>"
  let ?c1 = "c\<lparr>isRefreshing := True, refreshTokenSubject := None,
             auth := (auth c)\<lparr>posts := posts (auth c) @ [RefreshPost ?rt]\<rparr>,
             inflight := inflight c @ [?x]\<rparr>"
  let ?c2 = "?c1\<lparr>waiting := waiting ?c1 @ map Api ns\<rparr>"
  have burst: "client_run pf c (map Unauthorized (n # ns)) = ?c2"
  proof -
    have "client_run pf c (map Unauthorized (n # ns)) = client_run pf ?c1 (map Unauthorized ns)"
      using first_unauthorized[OF assms(1,2), of n] by (simp add: client_run_def)
    also have "\<dots> = ?c2" by (rule waiting_burst) simp_all
    finally show ?thesis .
  qed
  have after: "client_run pf c (map Unauthorized (n # ns) @ [RefreshResult 0 now (Inr r)]) =
      client_step pf ?c2 (RefreshResult 0 now (Inr r))"
    using burst by (simp add: client_run_def)
  have fin: "client_step pf ?c2 (RefreshResult 0 now (Inr r)) =
      c\<lparr>isRefreshing := False, refreshTokenSubject := Some (accessToken r),
        auth := handleAuthSuccess pf now r ((auth c)\<lparr>posts := posts (auth c) @ [RefreshPost ?rt]\<rparr>),
        inflight := [], waiting := [],
        delivered := delivered c @ map (\<lambda>m. (Api m, Resent (accessToken r))) (ns @ [n])\<rparr>"
    using assms(3,4) by (simp add: Let_def next_token_def release_waiting)
  show ?thesis
    unfolding after fin unfolding burst
    using assms(3,4) by (simp add: refreshPosts_def refreshPosts_handleAuthSuccess)
qed

lemma release_api:
  assumes "list_all is_api ws"
  shows "inflight (foldl (\<lambda>d r. resend r t d) c ws) = inflight c
       \<and> isRefreshing (foldl (\<lambda>d r. resend r t d) c ws) = isRefreshing c
       \<and> waiting (foldl (\<lambda>d r. resend r t d) c ws) = waiting c
       \<and> refreshTokenSubject (foldl (\<lambda>d r. resend r t d) c ws) = refreshTokenSubject c"
  using assms
proof (induction ws arbitrary: c)
  case Nil
  then show ?case by simp
next
  case (Cons w ws)
  then obtain n where "w = Api n" by (cases w) (auto simp: is_api_def)
  then show ?case using Cons by simp
qed

lemma started_for_apiD:
  "started_for_api r \<Longrightarrow> \<exists>rt n. r = Refresh rt (Some (Api n))"
proof (cases r)
  case (Api m)
  assume "started_for_api r"
  then show ?thesis using Api by (simp add: started_for_api_def)
next
  case (Login cr)
  assume "started_for_api r"
  then show ?thesis using Login by (simp add: started_for_api_def)
next
  case (Refresh rt origin)
  assume a: "started_for_api r"
  show ?thesis
  proof (cases origin)
    case None
    then show ?thesis using a Refresh by (simp add: started_for_api_def)
  next
    case (Some q)
    then show ?thesis using a Refresh by (cases q) (simp_all add: started_for_api_def)
  qed
qed

lemma single_flight_step:
  assumes "single_flight c" and "e \<noteq> TimerFires"
  shows "single_flight (client_step pf c e)"
proof (cases e)
  case (Unauthorized n)
  show ?thesis
  proof (cases "isRefreshing c")
    case True
    then have "refreshTokenSubject c = None" using assms(1) by (simp add: single_flight_def)
    then show ?thesis using assms(1) True Unauthorized
      by (auto simp: handle401Error_def single_flight_def one_in_flight_def is_api_def)
  next
    case False
    then have q: "inflight c = []" "list_all is_api (waiting c)"
      using assms(1) by (auto simp: single_flight_def one_in_flight_def)
    show ?thesis using False q Unauthorized
      by (auto simp: handle401Error_def single_flight_def one_in_flight_def next_token_def
          refreshToken_call_def Let_def started_for_api_def)
  qed
next
  case TimerFires
  then show ?thesis using assms(2) by simp
next
  case (RefreshResult k now res)
  show ?thesis
  proof (cases "k < length (inflight c)")
    case False
    then show ?thesis using assms(1) RefreshResult by simp
  next
    case True
    then have one: "one_in_flight c" using assms(1) by (auto simp: single_flight_def)
    then have fl: "isRefreshing c" "refreshTokenSubject c = None" "list_all is_api (waiting c)"
      by (simp_all add: one_in_flight_def)
    from one obtain y where y: "inflight c = [y]"
      by (cases "inflight c") (auto simp: one_in_flight_def)
    then obtain rt n where cy: "call y = Refresh rt (Some (Api n))"
      using one started_for_apiD[of "call y"] by (auto simp: one_in_flight_def)
    note x = y cy
    have k: "k = 0" using True y by simp
    show ?thesis
    proof (cases res)
      case (Inl err)
      then show ?thesis using RefreshResult k x fl
        by (auto simp: single_flight_def one_in_flight_def handle401Error_def Let_def)
    next
      case (Inr r)
      let ?c = "c\<lparr>inflight := [], auth := handleAuthSuccess pf now r (auth c), isRefreshing := False,
                   refreshTokenSubject := Some (accessToken r), waiting := []\<rparr>"
      have rel: "inflight (foldl (\<lambda>d r'. resend r' (accessToken r) d) ?c (waiting c)) = []
           \<and> isRefreshing (foldl (\<lambda>d r'. resend r' (accessToken r) d) ?c (waiting c)) = False
           \<and> waiting (foldl (\<lambda>d r'. resend r' (accessToken r) d) ?c (waiting c)) = []"
        using release_api[OF fl(3), of "accessToken r" ?c] by simp
      show ?thesis using RefreshResult k x Inr rel
        by (simp add: single_flight_def Let_def next_token_def)
    qed
  qed
qed

lemma single_flight_run:
  assumes "single_flight c" and "TimerFires \<notin> set evs"
  shows "single_flight (client_run pf c evs)"
  using assms unfolding client_run_def
proof (induction evs arbitrary: c)
  case Nil
  then show ?case by simp
next
  case (Cons e evs)
  then show ?case using single_flight_step[of c e pf] by auto
qed

lemma single_flight_length: "single_flight c \<Longrightarrow> length (inflight c) \<le> 1"
  by (auto simp: single_flight_def one_in_flight_def)

lemma signed_in_client_reads:
  "\<not> isRefreshing signed_in_client"
  "\<not> falsy (getRefreshToken (auth signed_in_client))"
  "inflight signed_in_client = []"
  "waiting signed_in_client = []"
  "delivered signed_in_client = []"
  "refreshPosts signed_in_client = []"
  "getRefreshToken (auth signed_in_client) = Some ''r1''"
  "timerPending (auth signed_in_client)"
  by (simp_all add: signed_in_client_def signed_in_eval getRefreshToken_def falsy_def
      refreshPosts_def)


text \<open>
  When the refresh request itself is answered with 401, \<open>intercept\<close> hands it to
  \<open>handle401Error\<close>, where the flag is set: the refresh request joins the waiting
  requests, nothing fails, nobody logs out and the flag stays set.
\<close>

lemma refresh_unauthorized_stalls:
  "delivered (client_run jwt_platform signed_in_client
      [Unauthorized 1, Unauthorized 2, RefreshResult 0 500 (Inl unauthorized)]) = [] \<and>
   waiting (client_run jwt_platform signed_in_client
      [Unauthorized 1, Unauthorized 2, RefreshResult 0 500 (Inl unauthorized)]) =
     [Api 2, Refresh ''r1'' (Some (Api 1))] \<and>
   isRefreshing (client_run jwt_platform signed_in_client
      [Unauthorized 1, Unauthorized 2, RefreshResult 0 500 (Inl unauthorized)]) \<and>
   navigations (auth (client_run jwt_platform signed_in_client
      [Unauthorized 1, Unauthorized 2, RefreshResult 0 500 (Inl unauthorized)])) = 0"
  by (simp add: client_run_def signed_in_client_def signed_in_eval refreshToken_call_def
      getRefreshToken_def getAccessToken_def falsy_def handle401Error_def next_token_def
      unauthorized_def Let_def)


subsection \<open>A waiting request is never handed a failure\<close>

lemma never_rejected_auth:
  "never_rejected m (c\<lparr>auth := a\<rparr>) = never_rejected m c"
  "never_rejected m (c\<lparr>isRefreshing := b\<rparr>) = never_rejected m c"
  "never_rejected m (c\<lparr>refreshTokenSubject := v\<rparr>) = never_rejected m c"
  by (simp_all add: never_rejected_def)

lemma never_rejected_resend:
  assumes "never_rejected m c" and "r = Api m \<or> \<not> involves m r"
  shows "never_rejected m (resend r t c)"
  using assms by (cases r) (auto simp: never_rejected_def)

lemma never_rejected_retry_original:
  assumes "never_rejected m c" and "r = Api m \<or> \<not> involves m r"
  shows "never_rejected m (retry_original r t c)"
  using assms by (cases r) (auto simp: never_rejected_def)

lemma never_rejected_release:
  assumes "never_rejected m c" and "\<forall>r \<in> set ws. r = Api m \<or> \<not> involves m r"
  shows "never_rejected m (foldl (\<lambda>d r. resend r t d) c ws)"
  using assms by (induction ws arbitrary: c) (simp_all add: never_rejected_resend)

lemma never_rejected_next_token:
  assumes "never_rejected m c"
  shows "never_rejected m (next_token v c)"
proof (cases v)
  case None
  then show ?thesis using assms by (simp add: next_token_def never_rejected_auth)
next
  case (Some t)
  have "never_rejected m (c\<lparr>refreshTokenSubject := Some t, waiting := []\<rparr>)"
    using assms by (simp add: never_rejected_def)
  moreover have "\<forall>r \<in> set (waiting c). r = Api m \<or> \<not> involves m r"
    using assms by (simp add: never_rejected_def)
  ultimately show ?thesis using Some
    by (simp add: next_token_def never_rejected_release)
qed

lemma never_rejected_fail:
  "never_rejected m c \<Longrightarrow> \<not> involves m r \<Longrightarrow> never_rejected m (fail r e c)"
  "never_rejected m c \<Longrightarrow> (\<forall>r. origin = Some r \<longrightarrow> \<not> involves m r)
     \<Longrightarrow> never_rejected m (refreshThrows origin e c)"
proof (induction r e c and origin e c rule: fail_refreshThrows.induct)
  case (1 n e c)
  then show ?case by (auto simp: never_rejected_def)
next
  case (2 cr e c)
  then show ?case by (auto simp: never_rejected_def)
next
  case (3 rt origin e c)
  have "\<forall>r. origin = Some r \<longrightarrow> \<not> involves m r"
    using "3.prems"(2) by (cases origin) auto
  then have "never_rejected m (refreshThrows origin e c)"
    using "3.IH" "3.prems"(1) by blast
  then show ?case by simp
next
  case (4 e c)
  then show ?case by (simp add: never_rejected_auth)
next
  case (5 r e c)
  have a: "never_rejected m (c\<lparr>auth := logout (logout (auth c)), isRefreshing := False\<rparr>)"
    using "5.prems"(1) by (simp add: never_rejected_auth)
  have b: "\<not> involves m r" using "5.prems"(2) by simp
  have "never_rejected m (fail r e (c\<lparr>auth := logout (logout (auth c)), isRefreshing := False\<rparr>))"
    using "5.IH" a b by blast
  then show ?case by simp
qed

lemma never_rejected_refreshToken_call:
  assumes "never_rejected m c" and "\<forall>r. origin = Some r \<longrightarrow> \<not> involves m r"
  shows "never_rejected m (refreshToken_call origin c)"
proof (cases "falsy (getRefreshToken (auth c))")
  case True
  then show ?thesis using assms by (simp add: refreshToken_call_def never_rejected_fail)
next
  case False
  have "\<not> involves m (Refresh (the (getRefreshToken (auth c))) origin)"
    using assms(2) by (cases origin) auto
  then show ?thesis using False assms(1)
    by (simp add: refreshToken_call_def never_rejected_def Let_def)
qed

lemma never_rejected_handle401Error:
  assumes "never_rejected m c" and "\<not> involves m r"
  shows "never_rejected m (handle401Error r c)"
proof (cases "isRefreshing c")
  case True
  show ?thesis
  proof (cases "refreshTokenSubject c")
    case None
    then have "handle401Error r c = c\<lparr>waiting := waiting c @ [r]\<rparr>"
      using True by (simp add: handle401Error_def)
    then show ?thesis using assms by (simp add: never_rejected_def)
  next
    case (Some t)
    then have "handle401Error r c = resend r t c"
      using True by (simp add: handle401Error_def)
    then show ?thesis using assms by (simp add: never_rejected_resend)
  qed
next
  case False
  let ?c1 = "next_token None (c\<lparr>isRefreshing := True\<rparr>)"
  have n1: "never_rejected m ?c1"
    using assms(1) by (simp add: never_rejected_next_token never_rejected_auth)
  have a: "never_rejected m (refreshToken_call (Some r) ?c1)"
    using n1 assms(2) by (simp add: never_rejected_refreshToken_call)
  have b: "never_rejected m (fail r noRefreshToken (?c1\<lparr>isRefreshing := False, auth := logout (auth ?c1)\<rparr>))"
    using n1 assms(2) by (simp add: never_rejected_fail never_rejected_auth)
  show ?thesis using False a b by (simp add: handle401Error_def Let_def)
qed

lemma never_rejected_succeed:
  assumes "never_rejected m c" and "\<not> involves m q"
  shows "never_rejected m (succeed pf now q r c)"
proof (cases q)
  case (Api n)
  then show ?thesis using assms by simp
next
  case (Login cr)
  then show ?thesis using assms by (simp add: never_rejected_def)
next
  case (Refresh rt origin)
  show ?thesis
  proof (cases origin)
    case None
    then show ?thesis using assms Refresh by (simp add: never_rejected_auth)
  next
    case (Some q')
    then have "\<not> involves m q'" using assms(2) Refresh by simp
    then show ?thesis using assms(1) Refresh Some
      by (simp add: never_rejected_retry_original never_rejected_next_token never_rejected_auth)
  qed
qed

lemma never_rejected_step:
  assumes "never_rejected m c" and "e \<noteq> Unauthorized m"
  shows "never_rejected m (client_step pf c e)"
proof (cases e)
  case (Unauthorized n)
  then have "\<not> involves m (Api n)" using assms(2) by simp
  then show ?thesis using Unauthorized assms(1) by (simp add: never_rejected_handle401Error)
next
  case TimerFires
  then show ?thesis using assms(1)
    by (simp add: never_rejected_refreshToken_call never_rejected_auth)
next
  case (RefreshResult k now res)
  show ?thesis
  proof (cases "k < length (inflight c)")
    case False
    then show ?thesis using RefreshResult assms(1) by simp
  next
    case True
    let ?c1 = "c\<lparr>inflight := take k (inflight c) @ drop (Suc k) (inflight c)\<rparr>"
    have x: "\<not> involves m (call (inflight c ! k))"
      using True assms(1) by (simp add: never_rejected_def)
    have "set (take k (inflight c) @ drop (Suc k) (inflight c)) \<subseteq> set (inflight c)"
      by (auto dest: in_set_takeD in_set_dropD)
    then have n1: "never_rejected m ?c1"
      using assms(1) by (auto simp: never_rejected_def)
    show ?thesis using RefreshResult True x n1
      by (cases res)
         (simp_all add: Let_def never_rejected_succeed never_rejected_handle401Error
            never_rejected_fail never_rejected_auth)
  qed
qed

lemma never_rejected_run:
  assumes "never_rejected m c" and "Unauthorized m \<notin> set evs"
  shows "never_rejected m (client_run pf c evs)"
  using assms unfolding client_run_def
proof (induction evs arbitrary: c)
  case Nil
  then show ?case by simp
next
  case (Cons e evs)
  then show ?case using never_rejected_step[of m c e pf] by auto
qed

lemma client_run_append:
  "client_run pf c (xs @ ys) = client_run pf (client_run pf c xs) ys"
  by (simp add: client_run_def)

lemma waiting_request_stalled:
  assumes "\<not> isRefreshing c" and "\<not> falsy (getRefreshToken (auth c))"
    and "inflight c = []" and "waiting c = []"
    and "errStatus e \<noteq> Some 401"
  shows "delivered (client_run pf c [Unauthorized n, Unauthorized m, RefreshResult 0 now (Inl e)]) =
           delivered c @ [(Api n, Rejected e)] \<and>
         waiting (client_run pf c [Unauthorized n, Unauthorized m, RefreshResult 0 now (Inl e)]) =
           [Api m] \<and>
         inflight (client_run pf c [Unauthorized n, Unauthorized m, RefreshResult 0 now (Inl e)]) = [] \<and>
         \<not> isRefreshing (client_run pf c [Unauthorized n, Unauthorized m, RefreshResult 0 now (Inl e)]) \<and>
         refreshTokenSubject (client_run pf c [Unauthorized n, Unauthorized m, RefreshResult 0 now (Inl e)]) = None \<and>
         navigations (auth (client_run pf c [Unauthorized n, Unauthorized m, RefreshResult 0 now (Inl e)])) =
           navigations (auth c) + 2"
  using assms
  by (simp add: client_run_def handle401Error_def next_token_def refreshToken_call_def Let_def
      logout_def clearTokens_def)

subsection \<open>A login answered with 401 while a session exists\<close>

lemma login_refresh_started:
  assumes "\<not> isRefreshing c" and "\<not> falsy (getRefreshToken (auth c))"
  shows "handle401Error (Login cr) c =
           c\<lparr>isRefreshing := True, refreshTokenSubject := None,
             auth := (auth c)\<lparr>posts := posts (auth c) @ [RefreshPost (the (getRefreshToken (auth c)))]\<rparr>,
             inflight := inflight c @
               [\<lparr>call = Refresh (the (getRefreshToken (auth c))) (Some (Login cr)),
                 guarded = (\<not> falsy (getAccessToken (auth c))), rescued = False\<rparr>]\<rparr>"
  using assms
  by (simp add: handle401Error_def next_token_def refreshToken_call_def Let_def)

lemma login_sent_token:
  "fst (login wrong_password signed_in_client) =
     \<lparr>call = Login wrong_password, guarded = True, rescued = False\<rparr>"
  by (simp add: login_def signed_in_client_def signed_in_eval getAccessToken_def falsy_def)

lemma login_refused_eval:
  "login_refused =
     signed_in_client\<lparr>isRefreshing := True, refreshTokenSubject := None,
       auth := signed_in\<lparr>posts := [LoginPost test_login, LoginPost wrong_password, RefreshPost ''r1'']\<rparr>,
       inflight := [\<lparr>call = Refresh ''r1'' (Some (Login wrong_password)), guarded = True,
                     rescued = False\<rparr>]\<rparr>"
proof -
  let ?c = "snd (login wrong_password signed_in_client)"
  have c: "?c = signed_in_client\<lparr>auth := signed_in\<lparr>posts := [LoginPost test_login, LoginPost wrong_password]\<rparr>\<rparr>"
    by (simp add: login_def signed_in_client_def signed_in_eval test_login_def)
  have r: "\<not> isRefreshing ?c" "\<not> falsy (getRefreshToken (auth ?c))"
    unfolding c by (simp_all add: signed_in_client_def signed_in_eval getRefreshToken_def falsy_def)
  have "login_refused = handle401Error (Login wrong_password) ?c"
    by (simp add: login_refused_def login_response_def login_sent_token unauthorized_def)
  also have "\<dots> = signed_in_client\<lparr>isRefreshing := True, refreshTokenSubject := None,
       auth := signed_in\<lparr>posts := [LoginPost test_login, LoginPost wrong_password, RefreshPost ''r1'']\<rparr>,
       inflight := [\<lparr>call = Refresh ''r1'' (Some (Login wrong_password)), guarded = True,
                     rescued = False\<rparr>]\<rparr>"
    unfolding login_refresh_started[OF r] unfolding c
    by (simp add: signed_in_client_def signed_in_eval getRefreshToken_def getAccessToken_def
        falsy_def)
  finally show ?thesis .
qed

section \<open>The claims\<close>

text \<open>
  Claim C1 as stated does not hold: \<open>AuthService.refreshToken\<close> sends a request at
  every call, and the refresh timer calls it whatever the interceptor's flag says. With
  the timer's refresh in flight, the 401 of an API request starts a second one.
\<close>

theorem refresh_not_single_flight_counterexample:
  "timerPending (auth signed_in_client) \<and>
   length (inflight (client_run jwt_platform signed_in_client [TimerFires, Unauthorized 1])) = 2 \<and>
   refreshPosts (client_run jwt_platform signed_in_client [TimerFires, Unauthorized 1]) =
     [RefreshPost ''r1'', RefreshPost ''r1'']"
  by (simp add: client_run_def signed_in_client_def signed_in_eval refreshToken_call_def
      getRefreshToken_def getAccessToken_def falsy_def handle401Error_def next_token_def
      refreshPosts_def Let_def)

text \<open>
  Claim C1, amended. Refresh is single-flight inside the interceptor. From a client with
  a refresh token, the flag down and nothing in flight or waiting: along every sequence
  of 401 responses and refresh results in which the timer does not fire, at most one
  refresh request is in flight; a burst of 401 responses sends exactly one refresh
  request, the first request of the burst waits for its result and the others wait on
  the subject; when that request succeeds, every request of the burst is sent again
  with the new access token and no further refresh request has been sent.
\<close>

theorem interceptor_single_flight:
  assumes "\<not> isRefreshing c" and "\<not> falsy (getRefreshToken (auth c))"
    and "inflight c = []" and "waiting c = []"
  shows "(TimerFires \<notin> set evs \<longrightarrow> length (inflight (client_run pf c evs)) \<le> 1) \<and>
         refreshPosts (client_run pf c (map Unauthorized (n # ns))) =
           refreshPosts c @ [RefreshPost (the (getRefreshToken (auth c)))] \<and>
         length (inflight (client_run pf c (map Unauthorized (n # ns)))) = 1 \<and>
         waiting (client_run pf c (map Unauthorized (n # ns))) = map Api ns \<and>
         delivered (client_run pf c (map Unauthorized (n # ns))) = delivered c \<and>
         refreshPosts (client_run pf c (map Unauthorized (n # ns) @ [RefreshResult 0 now (Inr r)])) =
           refreshPosts c @ [RefreshPost (the (getRefreshToken (auth c)))] \<and>
         delivered (client_run pf c (map Unauthorized (n # ns) @ [RefreshResult 0 now (Inr r)])) =
           delivered c @ map (\<lambda>m. (Api m, Resent (accessToken r))) (ns @ [n]) \<and>
         inflight (client_run pf c (map Unauthorized (n # ns) @ [RefreshResult 0 now (Inr r)])) = [] \<and>
         waiting (client_run pf c (map Unauthorized (n # ns) @ [RefreshResult 0 now (Inr r)])) = [] \<and>
         \<not> isRefreshing (client_run pf c (map Unauthorized (n # ns) @ [RefreshResult 0 now (Inr r)]))"
proof -
  have sf: "single_flight c" using assms(1,3,4) by (simp add: single_flight_def)
  have "length (inflight (client_run pf c evs)) \<le> 1" if "TimerFires \<notin> set evs"
    using single_flight_length[OF single_flight_run[OF sf that]] .
  then show ?thesis using one_refresh_for_burst[OF assms] by blast
qed

theorem interceptor_single_flight_witness:
  "\<not> isRefreshing signed_in_client \<and> \<not> falsy (getRefreshToken (auth signed_in_client)) \<and>
   inflight signed_in_client = [] \<and> waiting signed_in_client = [] \<and>
   TimerFires \<notin> set [Unauthorized 1, Unauthorized 2, RefreshResult 0 500 (Inl server_error), Unauthorized 3] \<and>
   length (inflight (client_run jwt_platform signed_in_client
      [Unauthorized 1, Unauthorized 2, RefreshResult 0 500 (Inl server_error), Unauthorized 3])) \<le> 1 \<and>
   refreshPosts (client_run jwt_platform signed_in_client
      (map Unauthorized [1, 2, 3, 4, 5] @ [RefreshResult 0 500 (Inr renewed_response)])) =
     [RefreshPost ''r1''] \<and>
   delivered (client_run jwt_platform signed_in_client
      (map Unauthorized [1, 2, 3, 4, 5] @ [RefreshResult 0 500 (Inr renewed_response)])) =
     [(Api 2, Resent ''h.eyJleHAiOjEwMDB9.t''), (Api 3, Resent ''h.eyJleHAiOjEwMDB9.t''),
      (Api 4, Resent ''h.eyJleHAiOjEwMDB9.t''), (Api 5, Resent ''h.eyJleHAiOjEwMDB9.t''),
      (Api 1, Resent ''h.eyJleHAiOjEwMDB9.t'')]"
proof -
  note h = signed_in_client_reads(1-4)
  have t: "TimerFires \<notin> set [Unauthorized 1, Unauthorized 2, RefreshResult 0 500 (Inl server_error), Unauthorized 3]"
    by simp
  from interceptor_single_flight[OF h, of
      "[Unauthorized 1, Unauthorized 2, RefreshResult 0 500 (Inl server_error), Unauthorized 3]"
      jwt_platform 1 "[2, 3, 4, 5]" 500 renewed_response] t
  have a: "length (inflight (client_run jwt_platform signed_in_client
      [Unauthorized 1, Unauthorized 2, RefreshResult 0 500 (Inl server_error), Unauthorized 3])) \<le> 1"
    and b: "refreshPosts (client_run jwt_platform signed_in_client
      (map Unauthorized [1, 2, 3, 4, 5] @ [RefreshResult 0 500 (Inr renewed_response)])) =
        refreshPosts signed_in_client @ [RefreshPost (the (getRefreshToken (auth signed_in_client)))]"
    and c: "delivered (client_run jwt_platform signed_in_client
      (map Unauthorized [1, 2, 3, 4, 5] @ [RefreshResult 0 500 (Inr renewed_response)])) =
        delivered signed_in_client @
          map (\<lambda>m. (Api m, Resent (accessToken renewed_response))) ([2, 3, 4, 5] @ [1])"
    by blast+
  show ?thesis
    unfolding b c using a h t by (simp add: signed_in_client_reads renewed_response_def)
qed


text \<open>
  Claim C2 asks a request that waits behind a refresh to fail when the refresh fails.
  In the code, when the refresh fails with a status other than 401, the request that
  started it fails with the error and \<open>logout\<close> runs twice, but nothing is pushed to
  \<open>refreshTokenSubject\<close>: the second request stays suspended, with no outcome, and
  whatever happens next, short of a new 401 for it, no failure is handed to it.
\<close>

theorem waiting_request_left_waiting:
  assumes "\<not> isRefreshing c" and "\<not> falsy (getRefreshToken (auth c))"
    and "inflight c = []" and "waiting c = []"
    and "errStatus e \<noteq> Some 401"
  shows "delivered (client_run pf c [Unauthorized n, Unauthorized m, RefreshResult 0 now (Inl e)]) =
           delivered c @ [(Api n, Rejected e)] \<and>
         waiting (client_run pf c [Unauthorized n, Unauthorized m, RefreshResult 0 now (Inl e)]) =
           [Api m] \<and>
         inflight (client_run pf c [Unauthorized n, Unauthorized m, RefreshResult 0 now (Inl e)]) = [] \<and>
         \<not> isRefreshing (client_run pf c [Unauthorized n, Unauthorized m, RefreshResult 0 now (Inl e)]) \<and>
         refreshTokenSubject (client_run pf c [Unauthorized n, Unauthorized m, RefreshResult 0 now (Inl e)]) = None \<and>
         navigations (auth (client_run pf c [Unauthorized n, Unauthorized m, RefreshResult 0 now (Inl e)])) =
           navigations (auth c) + 2 \<and>
         (n \<noteq> m \<and> delivered c = [] \<and> Unauthorized m \<notin> set evs \<longrightarrow>
            (Api m, Rejected e') \<notin> set (delivered (client_run pf c
               ([Unauthorized n, Unauthorized m, RefreshResult 0 now (Inl e)] @ evs))))"
proof -
  let ?c = "client_run pf c [Unauthorized n, Unauthorized m, RefreshResult 0 now (Inl e)]"
  note st = waiting_request_stalled[OF assms, of pf n m now]
  have "(Api m, Rejected e') \<notin> set (delivered (client_run pf ?c evs))"
    if h: "n \<noteq> m" "delivered c = []" "Unauthorized m \<notin> set evs"
  proof -
    have "never_rejected m ?c" using st h(1,2) by (simp add: never_rejected_def)
    then have "never_rejected m (client_run pf ?c evs)" using h(3) by (rule never_rejected_run)
    then show ?thesis by (simp add: never_rejected_def)
  qed
  then show ?thesis using st by (simp only: client_run_append) blast
qed

theorem waiting_request_left_waiting_witness:
  "\<not> isRefreshing signed_in_client \<and> \<not> falsy (getRefreshToken (auth signed_in_client)) \<and>
   inflight signed_in_client = [] \<and> waiting signed_in_client = [] \<and>
   errStatus server_error \<noteq> Some 401 \<and>
   delivered (client_run jwt_platform signed_in_client
      [Unauthorized 1, Unauthorized 2, RefreshResult 0 500 (Inl server_error)]) =
     [(Api 1, Rejected server_error)] \<and>
   waiting (client_run jwt_platform signed_in_client
      [Unauthorized 1, Unauthorized 2, RefreshResult 0 500 (Inl server_error)]) = [Api 2] \<and>
   (1::nat) \<noteq> 2 \<and> delivered signed_in_client = [] \<and>
   Unauthorized 2 \<notin> set [Unauthorized 3, TimerFires] \<and>
   (Api 2, Rejected server_error) \<notin> set (delivered (client_run jwt_platform signed_in_client
      ([Unauthorized 1, Unauthorized 2, RefreshResult 0 500 (Inl server_error)] @
       [Unauthorized 3, TimerFires])))"
proof -
  have e: "errStatus server_error \<noteq> Some 401" by (simp add: server_error_def)
  have t: "Unauthorized 2 \<notin> set [Unauthorized 3, TimerFires]" by simp
  have d: "delivered signed_in_client = []" by (rule signed_in_client_reads(5))
  have ne: "(1::nat) \<noteq> 2" by simp
  from waiting_request_left_waiting[OF signed_in_client_reads(1-4) e,
      of jwt_platform 1 2 500 "[Unauthorized 3, TimerFires]" server_error] t d ne
  have a: "delivered (client_run jwt_platform signed_in_client
      [Unauthorized 1, Unauthorized 2, RefreshResult 0 500 (Inl server_error)]) =
      delivered signed_in_client @ [(Api 1, Rejected server_error)]"
   and b: "waiting (client_run jwt_platform signed_in_client
      [Unauthorized 1, Unauthorized 2, RefreshResult 0 500 (Inl server_error)]) = [Api 2]"
   and c: "(Api 2, Rejected server_error) \<notin> set (delivered (client_run jwt_platform signed_in_client
      ([Unauthorized 1, Unauthorized 2, RefreshResult 0 500 (Inl server_error)] @
       [Unauthorized 3, TimerFires])))"
    by blast+
  show ?thesis
    using a b c e t d ne signed_in_client_reads(1-4) by simp
qed


text \<open>
  Claim C3 as stated does not hold, in four ways. \<open>cancelUpload\<close> removes a task and
  leaves the counter alone, the slot being given back when the abandoned request
  settles: after a task has been started and cancelled no task is uploading and the
  counter is 1. \<open>startSingleUpload\<close> publishes the new status before it increments
  the counter: the stream shows a queue with one task uploading and the counter at 0.
  \<open>startUploadById\<close> does not look at the free slots: four files started one by one
  leave the counter at 4, above \<open>maxConcurrent = 3\<close>. A request that fails in
  transport is handled twice: with three uploads running, the failure of one leaves
  four tasks uploading and the counter at 3.
\<close>

theorem counter_invariant_counterexample:
  "one_cancelled = run initialService [AddFiles [(doc ''a.pdf'', ''t1'')], StartAll, Cancel ''t1''] \<and>
   uploading one_cancelled = 0 \<and> activeUploads (queue one_cancelled) = 1 \<and>
   \<lparr>files = [(mkFileUpload (doc ''a.pdf'', ''t1''))\<lparr>status := Uploading\<rparr>],
    activeUploads = 0, maxConcurrent = 3\<rparr>
     \<in> set (emitted (run initialService [AddFiles [(doc ''a.pdf'', ''t1'')], StartAll])) \<and>
   over_limit_run =
     [AddFiles five_files, StartById ''t1'', StartById ''t2'', StartById ''t3'', StartById ''t4''] \<and>
   activeUploads (queue (run initialService over_limit_run)) = 4 \<and>
   maxConcurrent (queue (run initialService over_limit_run)) = 3 \<and>
   three_running = run initialService [AddFiles five_files, StartAll] \<and>
   uploading three_running = 3 \<and> activeUploads (queue three_running) = 3 \<and>
   uploading (step three_running (HttpFailure ''t1'' network_down)) = 4 \<and>
   activeUploads (queue (step three_running (HttpFailure ''t1'' network_down))) = 3"
proof -
  have a: "one_cancelled = run initialService [AddFiles [(doc ''a.pdf'', ''t1'')], StartAll, Cancel ''t1'']"
    by (simp add: one_cancelled_def one_admitted_def run_def)
  have b: "uploading one_cancelled = 0 \<and> activeUploads (queue one_cancelled) = 1"
    by (simp add: uploading_def one_cancelled_queue)
  have c: "\<lparr>files = [(mkFileUpload (doc ''a.pdf'', ''t1''))\<lparr>status := Uploading\<rparr>],
    activeUploads = 0, maxConcurrent = 3\<rparr>
     \<in> set (emitted (run initialService [AddFiles [(doc ''a.pdf'', ''t1'')], StartAll]))"
    by (simp add: one_started_emitted)
  have d: "three_running = run initialService [AddFiles five_files, StartAll]"
    by (simp add: three_running_def five_pending_def run_def)
  have e: "uploading three_running = 3 \<and> activeUploads (queue three_running) = 3"
    by (simp add: uploading_def three_running_queue mkFileUpload_def)
  have f: "uploading (step three_running (HttpFailure ''t1'' network_down)) = 4"
    using failure_decrements_twice
    by (simp add: uploading_def filter_map_status del: step.simps)
  show ?thesis
    using a b c d e f start_by_id_over_limit failure_decrements_twice
    by (simp add: over_limit_run_def del: step.simps)
qed

text \<open>
  Claim C3, amended. Along every run from the initial service in which
  \<open>startUploadById\<close> is called only while a slot is free, whatever else happens
  (cancels, retries, responses and errors of the transport at any time), the counter is
  at most \<open>maxConcurrent\<close>, which is 3, after each operation and in every queue value
  pushed to the observers. Along every run from the initial service in which
  candidates come with fresh ids, \<open>cancelUpload\<close> is not called on a task that is
  uploading and the requests that end do so with a response while their task is
  uploading, the counter equals the number of tasks uploading after each operation,
  \<open>startUploadById\<close> included, at the limit or not.
\<close>

theorem counter_follows_uploads:
  "(within_limit_run initialService evs \<longrightarrow>
      activeUploads (queue (run initialService evs)) \<le> maxConcurrent (queue (run initialService evs)) \<and>
      maxConcurrent (queue (run initialService evs)) = 3 \<and>
      (\<forall>q \<in> set (emitted (run initialService evs)).
         activeUploads q \<le> maxConcurrent q \<and> maxConcurrent q = 3)) \<and>
   (tracked_run initialService evs \<longrightarrow>
      activeUploads (queue (run initialService evs)) = int (uploading (run initialService evs)))"
proof -
  have a: "activeUploads (queue (run initialService evs)) \<le> maxConcurrent (queue (run initialService evs)) \<and>
      maxConcurrent (queue (run initialService evs)) = 3 \<and>
      (\<forall>q \<in> set (emitted (run initialService evs)).
         activeUploads q \<le> maxConcurrent q \<and> maxConcurrent q = 3)"
    if "within_limit_run initialService evs"
    using bounded_run[OF bounded_initial that] unfolding bounded_def .
  have b: "activeUploads (queue (run initialService evs)) = int (uploading (run initialService evs))"
    if "tracked_run initialService evs"
    using tracking_run[OF tracking_initial that] unfolding tracking_def by blast
  show ?thesis using a b by blast
qed

theorem counter_follows_uploads_witness:
  "within_limit_run initialService mixed_run \<and>
   map status (files (queue (run initialService mixed_run))) =
     [Failed, Uploading, Uploading, Uploading] \<and>
   activeUploads (queue (run initialService mixed_run)) \<le> 3 \<and>
   maxConcurrent (queue (run initialService mixed_run)) = 3 \<and>
   tracked_run initialService backfill_run \<and>
   map status (files (queue (run initialService backfill_run))) =
     [Success, Uploading, Uploading, Uploading, Pending] \<and>
   uploading (run initialService backfill_run) = 3 \<and>
   activeUploads (queue (run initialService backfill_run)) = 3 \<and>
   tracked_run initialService over_limit_run \<and>
   uploading (run initialService over_limit_run) = 4 \<and>
   activeUploads (queue (run initialService over_limit_run)) = 4"
proof -
  have r: "run initialService backfill_run = step three_running (HttpResponse ''t1'' ok_response)"
    by (simp add: backfill_run_def run_def step_five step_three del: step.simps)
  have u: "uploading (run initialService backfill_run) = 3"
    unfolding r by (simp add: uploading_def one_settled_queue mkFileUpload_def del: step.simps)
  have m: "map status (files (queue (run initialService backfill_run))) =
     [Success, Uploading, Uploading, Uploading, Pending]"
    unfolding r by (simp add: one_settled_queue mkFileUpload_def del: step.simps)
  have o: "uploading (run initialService over_limit_run) = 4"
    using start_by_id_over_limit by blast
  from counter_follows_uploads[of mixed_run] within_limit_mixed_run
  have w1: "activeUploads (queue (run initialService mixed_run)) \<le> maxConcurrent (queue (run initialService mixed_run))"
    and w2: "maxConcurrent (queue (run initialService mixed_run)) = 3"
    by blast+
  from counter_follows_uploads[of backfill_run] tracked_backfill_run
  have w4: "activeUploads (queue (run initialService backfill_run)) = int (uploading (run initialService backfill_run))"
    by blast
  from counter_follows_uploads[of over_limit_run] tracked_over_limit_run
  have w5: "activeUploads (queue (run initialService over_limit_run)) = int (uploading (run initialService over_limit_run))"
    by blast
  show ?thesis
    using w1 w2 w4 w5 u m o within_limit_mixed_run tracked_backfill_run tracked_over_limit_run
      mixed_run_statuses
    by simp
qed

text \<open>
  Claim C4 as stated does not hold: \<open>validateFile\<close> returns at the first rule a
  file violates. The candidate \<open>malicious.exe\<close> of 101 MB violates both rules, and
  the report of its admission holds the size reason alone.
\<close>

theorem reject_both_counterexample:
  "size' big_exe > MAX_FILE_SIZE \<and> ext_not_allowed big_exe \<and>
   alerts (snd (addFilesToQueue [(big_exe, ''t1'')] initialService)) =
     [[(''malicious.exe'', SizeExceeded (101 * 1024 * 1024))]]"
  by (simp add: big_exe_size big_exe_ext) (simp add: big_exe_def upload_defs)

text \<open>
  Claim C4, amended. A candidate that violates both admission rules is rejected once,
  with the size reason only: it has one entry in the report of its batch, at its place
  among the rejected candidates, the entry gives the size reason, and the candidate is
  neither among the accepted tasks nor in the queue.
\<close>

theorem reject_both_reports_size_only:
  assumes "size' f > MAX_FILE_SIZE" and "ext_not_allowed f"
  shows "validateFile f = \<lparr>isValid = False, verror = Some (SizeExceeded (size' f))\<rparr> \<and>
         errors (pre @ (f, i) # post) =
           errors pre @ (name f, SizeExceeded (size' f)) # errors post \<and>
         fst (addFilesToQueue (pre @ (f, i) # post) s) = validFiles pre @ validFiles post \<and>
         files (queue (snd (addFilesToQueue (pre @ (f, i) # post) s))) =
           files (queue s) @ validFiles pre @ validFiles post \<and>
         alerts (snd (addFilesToQueue (pre @ (f, i) # post) s)) =
           alerts s @ [errors pre @ (name f, SizeExceeded (size' f)) # errors post]"
proof -
  have v: "validateFile f = \<lparr>isValid = False, verror = Some (SizeExceeded (size' f))\<rparr>"
    using assms(1) by (simp add: validateFile_def)
  have e: "errors (pre @ (f, i) # post) =
           errors pre @ (name f, SizeExceeded (size' f)) # errors post"
    by (simp add: errors_def v)
  have a: "validFiles (pre @ (f, i) # post) = validFiles pre @ validFiles post"
    by (simp add: validFiles_def v)
  show ?thesis
    by (simp add: v e a addFilesToQueue_def Let_def next_queue_def)
qed


theorem reject_both_reports_size_only_witness:
  "size' big_exe > MAX_FILE_SIZE \<and> ext_not_allowed big_exe \<and>
   fst (addFilesToQueue [(doc ''a.pdf'', ''t1''), (big_exe, ''t2'')] initialService) =
     [mkFileUpload (doc ''a.pdf'', ''t1'')] \<and>
   files (queue (snd (addFilesToQueue [(doc ''a.pdf'', ''t1''), (big_exe, ''t2'')] initialService))) =
     [mkFileUpload (doc ''a.pdf'', ''t1'')] \<and>
   alerts (snd (addFilesToQueue [(doc ''a.pdf'', ''t1''), (big_exe, ''t2'')] initialService)) =
     [[(''malicious.exe'', SizeExceeded (101 * 1024 * 1024))]]"
proof -
  have v: "validFiles [(doc ''a.pdf'', ''t1'')] = [mkFileUpload (doc ''a.pdf'', ''t1'')]"
    by (simp add: validFiles_def doc_pdf_valid)
  have e: "errors [(doc ''a.pdf'', ''t1'')] = []"
    by (simp add: errors_def doc_pdf_valid)
  have n: "validFiles [] = []" "errors [] = []"
    by (simp_all add: validFiles_def errors_def)
  have i: "files (queue initialService) = []" "alerts initialService = []"
    by (simp_all add: initialService_def initialQueue_def)
  have b: "name big_exe = ''malicious.exe''" "size' big_exe = 101 * 1024 * 1024"
    by (simp_all add: big_exe_def)
  from reject_both_reports_size_only[OF big_exe_size big_exe_ext,
      of "[(doc ''a.pdf'', ''t1'')]" "''t2''" "[]" initialService]
  show ?thesis using big_exe_size big_exe_ext
    by (simp add: v e n i b)
qed

text \<open>
  Claim C5 as stated does not hold. A task is started and cancelled, which leaves the
  counter at 1 with an empty queue; the response of the abandoned request then lowers
  the counter to 0.
\<close>

theorem completion_after_cancel_counterexample:
  "''t1'' \<notin> set (ids one_cancelled) \<and>
   activeUploads (queue one_cancelled) = 1 \<and>
   activeUploads (queue (onResponse ''t1'' ok_response one_cancelled)) = 0"
  by (simp add: ids_def one_cancelled_queue onResponse_def Let_def updateFileStatus_def
      ok_response_def decrementActiveUploads_def next_queue_def processUploadQueue_def)

text \<open>
  Claim C5, amended. When the task of a terminal HTTP event is no longer in the queue,
  the event does not bring the task back: the task ids of the queue are the same after
  a response and after a failure. A response is not a no-operation for the rest: it
  lowers the counter by one, not below 0, and runs the scheduler (and announces a
  completed upload when the server reports success); with no pending task the queue
  changes in its counter only.
\<close>

theorem completion_after_cancel:
  assumes "i \<notin> set (ids s)"
  shows "onResponse i r s =
           processUploadQueue (decrementActiveUploads
             (if 0 < successCount r then s\<lparr>completed := completed s + 1\<rparr> else s)) \<and>
         ids (onResponse i r s) = ids s \<and>
         ids (onError i e s) = ids s \<and>
         (pendingIds s = [] \<longrightarrow>
            queue (onResponse i r s) =
              (queue s)\<lparr>activeUploads := max 0 (activeUploads (queue s) - 1)\<rparr>)"
proof -
  have a: "onResponse i r s =
           processUploadQueue (decrementActiveUploads
             (if 0 < successCount r then s\<lparr>completed := completed s + 1\<rparr> else s))"
    by (simp add: onResponse_def Let_def updateFileStatus_absent[OF assms])
  have b: "ids (onResponse i r s) = ids s"
    by (simp add: a ids_processUploadQueue decrement_reads ids_fields)
  have c: "ids (onError i e s) = ids s"
    by (simp add: onError_def handleUploadError_def Let_def ids_processUploadQueue
        decrement_reads other_updateFileStatus)
  have d: "queue (onResponse i r s) =
              (queue s)\<lparr>activeUploads := max 0 (activeUploads (queue s) - 1)\<rparr>"
    if "pendingIds s = []"
  proof -
    have "pendingIds (decrementActiveUploads
             (if 0 < successCount r then s\<lparr>completed := completed s + 1\<rparr> else s)) = []"
      using that by (simp add: decrement_reads pendingIds_fields)
    then show ?thesis
      by (simp add: a processUploadQueue_idle) (simp add: decrementActiveUploads_def next_queue_def)
  qed
  show ?thesis using a b c d by blast
qed

theorem completion_after_cancel_witness:
  "''t1'' \<notin> set (ids one_cancelled) \<and> pendingIds one_cancelled = [] \<and>
   ids (onResponse ''t1'' ok_response one_cancelled) = [] \<and>
   queue (onResponse ''t1'' ok_response one_cancelled) =
     \<lparr>files = [], activeUploads = 0, maxConcurrent = 3\<rparr>"
proof -
  have h: "''t1'' \<notin> set (ids one_cancelled)" by (simp add: ids_def one_cancelled_queue)
  have p: "pendingIds one_cancelled = []" by (simp add: pendingIds_def one_cancelled_queue)
  from completion_after_cancel[OF h, of ok_response] p
  have "ids (onResponse ''t1'' ok_response one_cancelled) = ids one_cancelled"
    and "queue (onResponse ''t1'' ok_response one_cancelled) =
      (queue one_cancelled)\<lparr>activeUploads := max 0 (activeUploads (queue one_cancelled) - 1)\<rparr>"
    by blast+
  then show ?thesis using h p
    by (simp add: ids_def one_cancelled_queue)
qed

text \<open>
  Claim C6 asks \<open>isAuthenticated\<close> to be false for a decodable token that lacks
  \<open>exp\<close>. The code answers true: with the payload \<open>{}\<close> the expiry is
  \<open>undefined * 1000\<close>, that is \<open>NaN\<close>, the comparison \<open>Date.now() >= NaN\<close> is
  false, so the token counts as not expired, at every time and in every session.
\<close>

theorem isAuthenticated_without_exp:
  assumes "decode pf ''e30'' = Some (JObject [])"
  shows "isAuthenticated pf now (s\<lparr>access_token := Some ''h.e30.s''\<rparr>)"
  using assms
  by (simp add: isAuthenticated_def getAccessToken_def falsy_def isTokenExpired_def
      payloadExp_def split_three Let_def)

theorem isAuthenticated_without_exp_witness:
  "decode jwt_platform ''e30'' = Some (JObject []) \<and>
   isAuthenticated jwt_platform 1700000000000 (initialAuth\<lparr>access_token := Some ''h.e30.s''\<rparr>)"
proof -
  have d: "decode jwt_platform ''e30'' = Some (JObject [])"
    by (simp add: jwt_platform_def)
  from isAuthenticated_without_exp[OF d] d show ?thesis by blast
qed


text \<open>
  Claim C7 as stated does not hold: \<open>addFilesToQueue\<close> does not call the scheduler.
  One valid file admitted into the initial service, with all three slots free, is still
  pending afterwards and no request has been issued.
\<close>

theorem admission_does_not_schedule_counterexample:
  "maxConcurrent (queue one_admitted) - activeUploads (queue one_admitted) = 3 \<and>
   map id' (files (queue one_admitted)) = [''t1''] \<and>
   map status (files (queue one_admitted)) = [Pending] \<and>
   requests one_admitted = []"
  by (simp add: one_admitted_def addFilesToQueue_def validFiles_def errors_def doc_pdf_valid
      Let_def next_queue_def initialService_def initialQueue_def MAX_CONCURRENT_UPLOADS_def
      mkFileUpload_def)

text \<open>
  Claim C7, amended. Admission does not schedule: the accepted files are appended as
  pending tasks, the counter is unchanged and no request is issued, free slots or not;
  and as long as the only events are admissions, cancellations, clearing and progress
  events, no request is issued and no task becomes uploading. Uploads start with
  \<open>startAllUploads\<close>, \<open>startUploadById\<close>, \<open>retryUpload\<close>, or when an upload request
  ends. The scheduler does run after every task settles. When the request of a task
  that is not pending ends with a response, the counter is decremented and the requests
  of the first pending tasks are issued in queue order, as many as there are free slots
  then, with no further operation called. When it ends with an error of the transport
  the same happens, in \<open>handleUploadError\<close> and again in the subscriber's error
  callback.
\<close>

theorem admission_leaves_pending:
  "fst (addFilesToQueue cs s) = validFiles cs \<and>
   files (queue (snd (addFilesToQueue cs s))) = files (queue s) @ validFiles cs \<and>
   (\<forall>fu \<in> set (validFiles cs). status fu = Pending) \<and>
   activeUploads (queue (snd (addFilesToQueue cs s))) = activeUploads (queue s) \<and>
   requests (snd (addFilesToQueue cs s)) = requests s \<and>
   ((\<forall>ev \<in> set evs. \<not> may_start ev) \<longrightarrow>
      requests (run (snd (addFilesToQueue cs s)) evs) = requests s \<and>
      set (uploadingIds (run (snd (addFilesToQueue cs s)) evs)) \<subseteq> set (uploadingIds s)) \<and>
   (wellformed s \<and> i \<notin> set (pendingIds s) \<longrightarrow>
      requests (onResponse i r s) = requests s @ take (freed s) (pendingIds s) \<and>
      files (queue (onResponse i r s)) =
        mark (take (freed s) (pendingIds s)) (files (queue (settled i r s))) \<and>
      requests (onError i e s) =
        requests s @ take (freed s) (pendingIds s) @
        take (freed (handleUploadError i e s)) (pendingIds (handleUploadError i e s)))"
proof -
  have a: "fst (addFilesToQueue cs s) = validFiles cs \<and>
   files (queue (snd (addFilesToQueue cs s))) = files (queue s) @ validFiles cs \<and>
   activeUploads (queue (snd (addFilesToQueue cs s))) = activeUploads (queue s) \<and>
   requests (snd (addFilesToQueue cs s)) = requests s"
    by (simp add: addFilesToQueue_def Let_def next_queue_def)
  have b: "\<forall>fu \<in> set (validFiles cs). status fu = Pending"
    by (auto simp: validFiles_def mkFileUpload_def)
  have c: "requests (run (snd (addFilesToQueue cs s)) evs) = requests s \<and>
      set (uploadingIds (run (snd (addFilesToQueue cs s)) evs)) \<subseteq> set (uploadingIds s)"
    if q: "\<forall>ev \<in> set evs. \<not> may_start ev"
  proof -
    have "\<forall>ev \<in> set (AddFiles cs # evs). \<not> may_start ev" using q by simp
    from quiet_run[OF this, of s] show ?thesis by (simp add: run_def)
  qed
  have d: "requests (onResponse i r s) = requests s @ take (freed s) (pendingIds s) \<and>
      files (queue (onResponse i r s)) =
        mark (take (freed s) (pendingIds s)) (files (queue (settled i r s))) \<and>
      requests (onError i e s) =
        requests s @ take (freed s) (pendingIds s) @
        take (freed (handleUploadError i e s)) (pendingIds (handleUploadError i e s))"
    if "wellformed s" "i \<notin> set (pendingIds s)"
    using response_backfill[OF that] failure_backfill[OF that] by blast
  show ?thesis using a b c d by blast
qed

theorem admission_leaves_pending_witness:
  "mkFileUpload (doc ''a.pdf'', ''t6'') \<in> set (validFiles [(doc ''a.pdf'', ''t6'')]) \<and>
   status (mkFileUpload (doc ''a.pdf'', ''t6'')) = Pending \<and>
   maxConcurrent (queue one_by_hand) - activeUploads (queue one_by_hand) = 2 \<and>
   map status (files (queue (snd (addFilesToQueue [(doc ''a.pdf'', ''t6'')] one_by_hand)))) =
     [Uploading, Pending, Pending, Pending, Pending, Pending] \<and>
   \<not> may_start (HttpProgress ''t1'' 1 2) \<and> \<not> may_start ClearCompleted \<and>
   \<not> may_start (Cancel ''t9'') \<and>
   requests (run (snd (addFilesToQueue [(doc ''a.pdf'', ''t6'')] one_by_hand))
      [HttpProgress ''t1'' 1 2, ClearCompleted, Cancel ''t9'']) = [''t1''] \<and>
   wellformed one_by_hand \<and> ''t1'' \<notin> set (pendingIds one_by_hand) \<and>
   requests (onResponse ''t1'' ok_response one_by_hand) = [''t1'', ''t2'', ''t3'', ''t4''] \<and>
   map status (files (queue (onResponse ''t1'' ok_response one_by_hand))) =
     [Success, Uploading, Uploading, Uploading, Pending] \<and>
   requests (onError ''t1'' network_down one_by_hand) = [''t1'', ''t2'', ''t3'', ''t4'', ''t5'']"
proof -
  have v: "validFiles [(doc ''a.pdf'', ''t6'')] = [mkFileUpload (doc ''a.pdf'', ''t6'')]"
    by (simp add: validFiles_def doc_pdf_valid)
  have q: "queue one_by_hand =
     \<lparr>files = [(mkFileUpload (doc ''a.pdf'', ''t1''))\<lparr>status := Uploading\<rparr>,
               mkFileUpload (doc ''b.pdf'', ''t2''), mkFileUpload (doc ''c.txt'', ''t3''),
               mkFileUpload (doc ''d.docx'', ''t4''), mkFileUpload (doc ''e.pdf'', ''t5'')],
      activeUploads = 1, maxConcurrent = 3\<rparr>"
    using by_hand_queues(1) by (simp only: one_by_hand_step)
  have m: "\<forall>ev \<in> set [HttpProgress ''t1'' 1 2, ClearCompleted, Cancel ''t9'']. \<not> may_start ev"
    by simp
  have p: "''t1'' \<notin> set (pendingIds one_by_hand)" by (simp add: one_by_hand_reads)
  from admission_leaves_pending[of "[(doc ''a.pdf'', ''t6'')]" one_by_hand
      "[HttpProgress ''t1'' 1 2, ClearCompleted, Cancel ''t9'']" "''t1''" ok_response network_down]
    m p one_by_hand_reads(1)
  have w1: "files (queue (snd (addFilesToQueue [(doc ''a.pdf'', ''t6'')] one_by_hand))) =
      files (queue one_by_hand) @ validFiles [(doc ''a.pdf'', ''t6'')]"
    and w2: "requests (run (snd (addFilesToQueue [(doc ''a.pdf'', ''t6'')] one_by_hand))
      [HttpProgress ''t1'' 1 2, ClearCompleted, Cancel ''t9'']) = requests one_by_hand"
    and w3: "requests (onResponse ''t1'' ok_response one_by_hand) =
      requests one_by_hand @ take (freed one_by_hand) (pendingIds one_by_hand)"
    and w5: "files (queue (onResponse ''t1'' ok_response one_by_hand)) =
      mark (take (freed one_by_hand) (pendingIds one_by_hand))
        (files (queue (settled ''t1'' ok_response one_by_hand)))"
    and w4: "requests (onError ''t1'' network_down one_by_hand) =
        requests one_by_hand @ take (freed one_by_hand) (pendingIds one_by_hand) @
        take (freed (handleUploadError ''t1'' network_down one_by_hand))
          (pendingIds (handleUploadError ''t1'' network_down one_by_hand))"
    by blast+
  have st: "files (queue (settled ''t1'' ok_response one_by_hand)) =
      [(mkFileUpload (doc ''a.pdf'', ''t1''))\<lparr>status := Success\<rparr>,
       mkFileUpload (doc ''b.pdf'', ''t2''), mkFileUpload (doc ''c.txt'', ''t3''),
       mkFileUpload (doc ''d.docx'', ''t4''), mkFileUpload (doc ''e.pdf'', ''t5'')]"
    by (simp add: settled_def ok_response_def updateFileStatus_def q Let_def next_queue_def
        mkFileUpload_def or_error_def falsy_def)
  show ?thesis
    unfolding w1 w2 w3 w4 w5
    using m p
    by (simp add: v q st mark_def one_by_hand_reads one_by_hand_failed_reads mkFileUpload_def)
qed


text \<open>
  Claim C9. Scheduling is first in, first out. On a well-formed service,
  \<open>processUploadQueue\<close> issues its requests for the first \<open>slots\<close> pending
  tasks in queue order and marks exactly those uploading; hence a pending task that lies
  earlier in the queue than a pending task that was started has been started as well.
\<close>

theorem processUploadQueue_fifo:
  assumes "wellformed s"
  shows "requests (processUploadQueue s) = requests s @ take (slots s) (pendingIds s) \<and>
         files (queue (processUploadQueue s)) =
           mark (take (slots s) (pendingIds s)) (files (queue s)) \<and>
         (\<forall>i j. i < j \<and> j < length (files (queue s)) \<and>
                status (files (queue s) ! i) = Pending \<and>
                status (files (queue s) ! j) = Pending \<and>
                status (files (queue (processUploadQueue s)) ! j) = Uploading
            \<longrightarrow> status (files (queue (processUploadQueue s)) ! i) = Uploading)"
proof -
  let ?fs = "files (queue s)"
  let ?P = "take (slots s) (pendingIds s)"
  note eff = processUploadQueue_effect[OF assms]
  have d: "distinct (map id' ?fs)" using assms by (simp add: wellformed_def ids_def)
  have pair: "status (mark ?P ?fs ! i) = Uploading"
    if "i < j" "j < length ?fs" "status (?fs ! i) = Pending" "status (?fs ! j) = Pending"
       "status (mark ?P ?fs ! j) = Uploading" for i j
  proof -
    have il: "i < length ?fs" using that(1,2) by simp
    have jP: "id' (?fs ! j) \<in> set ?P"
      using that(2,4,5) by (auto simp: mark_def split: if_splits)
    have "?fs = take i ?fs @ ?fs ! i # drop (Suc i) ?fs"
      using il by (simp add: id_take_nth_drop)
    moreover have "drop (Suc i) ?fs =
        take (j - Suc i) (drop (Suc i) ?fs) @ ?fs ! j # drop (Suc (j - Suc i)) (drop (Suc i) ?fs)"
      using that(1,2) id_take_nth_drop[of "j - Suc i" "drop (Suc i) ?fs"] by simp
    ultimately have dec: "?fs = take i ?fs @ ?fs ! i #
        take (j - Suc i) (drop (Suc i) ?fs) @ ?fs ! j # drop (Suc (j - Suc i)) (drop (Suc i) ?fs)"
      by simp
    have "id' (?fs ! i) \<in> set ?P"
      using fifo_decomp[OF d dec that(3,4)] jP by (simp add: pendingIds_def)
    then show ?thesis using il by (simp add: mark_def)
  qed
  have files_eq: "files (queue (processUploadQueue s)) = mark ?P ?fs" using eff by simp
  have req_eq: "requests (processUploadQueue s) = requests s @ ?P" using eff by simp
  show ?thesis unfolding files_eq req_eq using pair by blast
qed

theorem processUploadQueue_fifo_witness:
  "wellformed five_pending \<and>
   requests (processUploadQueue five_pending) = [''t1'', ''t2'', ''t3''] \<and>
   map status (files (queue (processUploadQueue five_pending))) =
     [Uploading, Uploading, Uploading, Pending, Pending]"
proof -
  have w: "wellformed five_pending"
    by (simp add: wellformed_def ids_def five_pending_queue mkFileUpload_def)
  have a: "slots five_pending = 3"
    by (simp add: slots_def five_pending_queue)
  have p: "pendingIds five_pending = [''t1'', ''t2'', ''t3'', ''t4'', ''t5'']"
    by (simp add: pendingIds_def five_pending_queue mkFileUpload_def)
  show ?thesis
    using processUploadQueue_fifo[OF w] w
    by (simp add: five_pending_queue a p mark_def mkFileUpload_def)
qed

text \<open>
  Claim C8 as stated does not hold. The login request passes the interceptor. While a
  session exists it carries the access token, and its 401 goes to \<open>handle401Error\<close>:
  nothing is handed to the caller and a refresh request is sent. When that refresh
  fails with 500, the caller of \<open>login\<close> receives the error of the refresh, not the
  401 of its own request, and \<open>logout\<close> has removed the stored tokens, reset the
  published state and cleared the refresh timer.
\<close>

theorem login_failure_counterexample:
  "fst (login wrong_password signed_in_client) =
     \<lparr>call = Login wrong_password, guarded = True, rescued = False\<rparr> \<and>
   errStatus unauthorized = Some 401 \<and>
   delivered login_refused = [] \<and>
   refreshPosts login_refused = [RefreshPost ''r1''] \<and>
   delivered (client_step jwt_platform login_refused (RefreshResult 0 6 (Inl server_error))) =
     [(Login wrong_password, Rejected server_error)] \<and>
   server_error \<noteq> unauthorized \<and>
   access_token (auth signed_in_client) = Some ''h.eyJleHAiOjEwMDB9.s'' \<and>
   refresh_token (auth signed_in_client) = Some ''r1'' \<and>
   isAuthenticatedSubject (auth signed_in_client) \<and> timerPending (auth signed_in_client) \<and>
   access_token (auth (client_step jwt_platform login_refused (RefreshResult 0 6 (Inl server_error)))) = None \<and>
   refresh_token (auth (client_step jwt_platform login_refused (RefreshResult 0 6 (Inl server_error)))) = None \<and>
   \<not> isAuthenticatedSubject (auth (client_step jwt_platform login_refused (RefreshResult 0 6 (Inl server_error)))) \<and>
   \<not> timerPending (auth (client_step jwt_platform login_refused (RefreshResult 0 6 (Inl server_error))))"
  by (simp add: login_refused_eval login_sent_token)
     (simp add: signed_in_client_def signed_in_eval unauthorized_def server_error_def
        refreshPosts_def handleError_def logout_def clearTokens_def getRefreshToken_def
        falsy_def Let_def)

text \<open>
  Claim C8, amended. \<open>login\<close> sends the request through the interceptor, which
  attaches the access token of the store when there is one. When the request as
  \<open>login\<close> sent it is answered with a status other than 401, the error is handed to
  the caller as it came and nothing else changes: stored tokens, cached user, published
  state and refresh timer are as before the answer. When a request sent without a token
  is answered with 401, the error is handed to the caller as it came after
  \<open>handleError\<close> has run \<open>logout\<close>. When a request sent with a token is answered with
  401, the error goes to \<open>handle401Error\<close> and not to the caller. With a refresh in
  progress the request waits for its token. With no refresh in progress and no refresh
  token in the store, \<open>logout\<close> runs and the caller receives the error "No refresh
  token available". With no refresh in progress and a refresh token in the store, a
  refresh request is sent and the session is left as it is. If that refresh request, the only one in flight, fails with a
  status other than 401, the caller of \<open>login\<close> receives the error of the refresh and
  \<open>logout\<close> has run twice. If it succeeds, with no request waiting, the new session
  is stored and the login request is sent again with the new access token. An error
  that answers this second sending is handed to the caller as it came, whatever its
  status, after the interceptor has reset its flag and run \<open>logout\<close>, and
  \<open>handleError\<close> has run \<open>logout\<close> once more on a 401.
\<close>

theorem login_failure:
  "login cr c =
     (\<lparr>call = Login cr, guarded = (\<not> falsy (getAccessToken (auth c))), rescued = False\<rparr>,
      c\<lparr>auth := (auth c)\<lparr>posts := posts (auth c) @ [LoginPost cr]\<rparr>\<rparr>) \<and>
   (errStatus e \<noteq> Some 401 \<longrightarrow>
      login_response pf now \<lparr>call = Login cr, guarded = g, rescued = False\<rparr> (Inl e) c =
        c\<lparr>delivered := delivered c @ [(Login cr, Rejected e)]\<rparr>) \<and>
   (errStatus e = Some 401 \<longrightarrow>
      login_response pf now \<lparr>call = Login cr, guarded = False, rescued = False\<rparr> (Inl e) c =
        c\<lparr>auth := logout (auth c), delivered := delivered c @ [(Login cr, Rejected e)]\<rparr> \<and>
      login_response pf now \<lparr>call = Login cr, guarded = True, rescued = False\<rparr> (Inl e) c =
        handle401Error (Login cr) c) \<and>
   (errStatus e = Some 401 \<and> isRefreshing c \<and> refreshTokenSubject c = None \<longrightarrow>
      login_response pf now \<lparr>call = Login cr, guarded = True, rescued = False\<rparr> (Inl e) c =
        c\<lparr>waiting := waiting c @ [Login cr]\<rparr>) \<and>
   (errStatus e = Some 401 \<and> \<not> isRefreshing c \<and> falsy (getRefreshToken (auth c)) \<longrightarrow>
      login_response pf now \<lparr>call = Login cr, guarded = True, rescued = False\<rparr> (Inl e) c =
        c\<lparr>refreshTokenSubject := None, auth := logout (auth c),
          delivered := delivered c @ [(Login cr, Rejected noRefreshToken)]\<rparr>) \<and>
   (errStatus e = Some 401 \<and> \<not> isRefreshing c \<and> \<not> falsy (getRefreshToken (auth c)) \<longrightarrow>
      login_response pf now \<lparr>call = Login cr, guarded = True, rescued = False\<rparr> (Inl e) c =
        c\<lparr>isRefreshing := True, refreshTokenSubject := None,
          auth := (auth c)\<lparr>posts := posts (auth c) @ [RefreshPost (the (getRefreshToken (auth c)))]\<rparr>,
          inflight := inflight c @
            [\<lparr>call = Refresh (the (getRefreshToken (auth c))) (Some (Login cr)),
              guarded = (\<not> falsy (getAccessToken (auth c))), rescued = False\<rparr>]\<rparr> \<and>
      (inflight c = [] \<and> errStatus e' \<noteq> Some 401 \<longrightarrow>
         client_step pf
           (login_response pf now \<lparr>call = Login cr, guarded = True, rescued = False\<rparr> (Inl e) c)
           (RefreshResult 0 now' (Inl e')) =
           c\<lparr>isRefreshing := False, refreshTokenSubject := None,
             auth := logout (logout ((auth c)\<lparr>posts := posts (auth c) @
                       [RefreshPost (the (getRefreshToken (auth c)))]\<rparr>)),
             inflight := [],
             delivered := delivered c @ [(Login cr, Rejected e')]\<rparr>) \<and>
      (inflight c = [] \<and> waiting c = [] \<longrightarrow>
         client_step pf
           (login_response pf now \<lparr>call = Login cr, guarded = True, rescued = False\<rparr> (Inl e) c)
           (RefreshResult 0 now' (Inr r)) =
           c\<lparr>isRefreshing := False, refreshTokenSubject := Some (accessToken r),
             auth := (handleAuthSuccess pf now' r ((auth c)\<lparr>posts := posts (auth c) @
                        [RefreshPost (the (getRefreshToken (auth c)))]\<rparr>))
                     \<lparr>posts := posts (handleAuthSuccess pf now' r ((auth c)\<lparr>posts := posts (auth c) @
                        [RefreshPost (the (getRefreshToken (auth c)))]\<rparr>)) @ [LoginPost cr]\<rparr>,
             inflight := [],
             delivered := delivered c @ [(Login cr, Resent (accessToken r))]\<rparr>)) \<and>
   login_response pf now \<lparr>call = Login cr, guarded = False, rescued = True\<rparr> (Inl e) c =
     c\<lparr>isRefreshing := False, auth := handleError e (logout (auth c)),
       delivered := delivered c @ [(Login cr, Rejected e)]\<rparr>"
proof -
  let ?x = "\<lparr>call = Login cr, guarded = True, rescued = False\<rparr>"
  let ?rt = "the (getRefreshToken (auth c))"
  have a: "login_response pf now \<lparr>call = Login cr, guarded = g, rescued = False\<rparr> (Inl e) c =
        c\<lparr>delivered := delivered c @ [(Login cr, Rejected e)]\<rparr>" if "errStatus e \<noteq> Some 401"
    using that by (simp add: login_response_def handleError_def)
  have b: "login_response pf now \<lparr>call = Login cr, guarded = False, rescued = False\<rparr> (Inl e) c =
        c\<lparr>auth := logout (auth c), delivered := delivered c @ [(Login cr, Rejected e)]\<rparr>"
    if "errStatus e = Some 401"
    using that by (simp add: login_response_def handleError_def)
  have d: "login_response pf now ?x (Inl e) c = handle401Error (Login cr) c"
    if "errStatus e = Some 401"
    using that by (simp add: login_response_def)
  have d1: "login_response pf now ?x (Inl e) c = c\<lparr>waiting := waiting c @ [Login cr]\<rparr>"
    if "errStatus e = Some 401" "isRefreshing c" "refreshTokenSubject c = None"
    unfolding d[OF that(1)] using that(2,3) by (simp add: handle401Error_def)
  have d2: "login_response pf now ?x (Inl e) c =
        c\<lparr>refreshTokenSubject := None, auth := logout (auth c),
          delivered := delivered c @ [(Login cr, Rejected noRefreshToken)]\<rparr>"
    if "errStatus e = Some 401" "\<not> isRefreshing c" "falsy (getRefreshToken (auth c))"
    unfolding d[OF that(1)] using that(2,3)
    by (simp add: handle401Error_def next_token_def Let_def handleError_def noRefreshToken_def)
  have f: "login_response pf now ?x (Inl e) c =
        c\<lparr>isRefreshing := True, refreshTokenSubject := None,
          auth := (auth c)\<lparr>posts := posts (auth c) @ [RefreshPost ?rt]\<rparr>,
          inflight := inflight c @
            [\<lparr>call = Refresh ?rt (Some (Login cr)),
              guarded = (\<not> falsy (getAccessToken (auth c))), rescued = False\<rparr>]\<rparr>"
    if "errStatus e = Some 401" "\<not> isRefreshing c" "\<not> falsy (getRefreshToken (auth c))"
    unfolding d[OF that(1)] by (rule login_refresh_started[OF that(2,3)])
  have h: "client_step pf (login_response pf now ?x (Inl e) c) (RefreshResult 0 now' (Inl e')) =
           c\<lparr>isRefreshing := False, refreshTokenSubject := None,
             auth := logout (logout ((auth c)\<lparr>posts := posts (auth c) @ [RefreshPost ?rt]\<rparr>)),
             inflight := [],
             delivered := delivered c @ [(Login cr, Rejected e')]\<rparr>"
    if "errStatus e = Some 401" "\<not> isRefreshing c" "\<not> falsy (getRefreshToken (auth c))"
      "inflight c = []" "errStatus e' \<noteq> Some 401"
    unfolding f[OF that(1-3)] using that(4,5) by (simp add: Let_def handleError_def)
  have k: "client_step pf (login_response pf now ?x (Inl e) c) (RefreshResult 0 now' (Inr r)) =
           c\<lparr>isRefreshing := False, refreshTokenSubject := Some (accessToken r),
             auth := (handleAuthSuccess pf now' r ((auth c)\<lparr>posts := posts (auth c) @ [RefreshPost ?rt]\<rparr>))
                     \<lparr>posts := posts (handleAuthSuccess pf now' r ((auth c)\<lparr>posts := posts (auth c) @
                        [RefreshPost ?rt]\<rparr>)) @ [LoginPost cr]\<rparr>,
             inflight := [],
             delivered := delivered c @ [(Login cr, Resent (accessToken r))]\<rparr>"
    if "errStatus e = Some 401" "\<not> isRefreshing c" "\<not> falsy (getRefreshToken (auth c))"
      "inflight c = []" "waiting c = []"
    unfolding f[OF that(1-3)] using that(4,5) by (simp add: Let_def next_token_def)
  have l: "login_response pf now \<lparr>call = Login cr, guarded = False, rescued = True\<rparr> (Inl e) c =
     c\<lparr>isRefreshing := False, auth := handleError e (logout (auth c)),
       delivered := delivered c @ [(Login cr, Rejected e)]\<rparr>"
    by (simp add: login_response_def)
  show ?thesis using a b d d1 d2 f h k l by (simp add: login_def)
qed

theorem login_failure_witness:
  "errStatus server_error \<noteq> Some 401 \<and> errStatus unauthorized = Some 401 \<and>
   login wrong_password signed_in_client =
     (\<lparr>call = Login wrong_password, guarded = True, rescued = False\<rparr>,
      signed_in_client\<lparr>auth := signed_in\<lparr>posts := posts signed_in @ [LoginPost wrong_password]\<rparr>\<rparr>) \<and>
   login_response jwt_platform 5 \<lparr>call = Login wrong_password, guarded = True, rescued = False\<rparr>
       (Inl server_error) signed_in_client =
     signed_in_client\<lparr>delivered := [(Login wrong_password, Rejected server_error)]\<rparr> \<and>
   guarded (fst (login wrong_password initialClient)) = False \<and>
   delivered (login_response jwt_platform 5 \<lparr>call = Login wrong_password, guarded = False, rescued = False\<rparr>
       (Inl unauthorized) initialClient) =
     [(Login wrong_password, Rejected unauthorized)] \<and>
   navigations (auth (login_response jwt_platform 5
       \<lparr>call = Login wrong_password, guarded = False, rescued = False\<rparr>
       (Inl unauthorized) initialClient)) = 1 \<and>
   \<not> isRefreshing signed_in_client \<and> \<not> falsy (getRefreshToken (auth signed_in_client)) \<and>
   inflight signed_in_client = [] \<and> waiting signed_in_client = [] \<and>
   delivered (login_response jwt_platform 5 \<lparr>call = Login wrong_password, guarded = True, rescued = False\<rparr>
       (Inl unauthorized) signed_in_client) = [] \<and>
   access_token (auth (login_response jwt_platform 5
       \<lparr>call = Login wrong_password, guarded = True, rescued = False\<rparr>
       (Inl unauthorized) signed_in_client)) = Some ''h.eyJleHAiOjEwMDB9.s'' \<and>
   delivered (client_step jwt_platform
       (login_response jwt_platform 5 \<lparr>call = Login wrong_password, guarded = True, rescued = False\<rparr>
          (Inl unauthorized) signed_in_client)
       (RefreshResult 0 6 (Inl server_error))) =
     [(Login wrong_password, Rejected server_error)] \<and>
   navigations (auth (client_step jwt_platform
       (login_response jwt_platform 5 \<lparr>call = Login wrong_password, guarded = True, rescued = False\<rparr>
          (Inl unauthorized) signed_in_client)
       (RefreshResult 0 6 (Inl server_error)))) = 2 \<and>
   delivered (client_step jwt_platform
       (login_response jwt_platform 5 \<lparr>call = Login wrong_password, guarded = True, rescued = False\<rparr>
          (Inl unauthorized) signed_in_client)
       (RefreshResult 0 6 (Inr renewed_response))) =
     [(Login wrong_password, Resent ''h.eyJleHAiOjEwMDB9.t'')] \<and>
   isRefreshing login_refused \<and> refreshTokenSubject login_refused = None \<and>
   waiting (login_response jwt_platform 6 \<lparr>call = Login wrong_password, guarded = True, rescued = False\<rparr>
       (Inl unauthorized) login_refused) = [Login wrong_password] \<and>
   falsy (getRefreshToken (auth (signed_in_client\<lparr>auth := signed_in\<lparr>refresh_token := None\<rparr>\<rparr>))) \<and>
   delivered (login_response jwt_platform 5 \<lparr>call = Login wrong_password, guarded = True, rescued = False\<rparr>
       (Inl unauthorized) (signed_in_client\<lparr>auth := signed_in\<lparr>refresh_token := None\<rparr>\<rparr>)) =
     [(Login wrong_password, Rejected noRefreshToken)] \<and>
   delivered (login_response jwt_platform 7 sent_again (Inl server_error) signed_in_client) =
     [(Login wrong_password, Rejected server_error)] \<and>
   access_token (auth (login_response jwt_platform 7 sent_again (Inl server_error) signed_in_client)) = None \<and>
   navigations (auth (login_response jwt_platform 7 sent_again (Inl server_error) signed_in_client)) = 1"
proof -
  let ?x = "\<lparr>call = Login wrong_password, guarded = True, rescued = False\<rparr>"
  let ?y = "\<lparr>call = Login wrong_password, guarded = False, rescued = False\<rparr>"
  have a: "errStatus server_error \<noteq> Some 401" by (simp add: server_error_def)
  have b: "errStatus unauthorized = Some 401" by (simp add: unauthorized_def)
  have n: "navigations (logout t) = navigations t + 1" for t
    by (simp add: logout_def clearTokens_def Let_def)
  have t: "access_token (logout t) = None" for t
    by (simp add: logout_def clearTokens_def Let_def)
  note h = signed_in_client_reads(1-4)
  from login_failure[where cr = wrong_password and c = signed_in_client and e = server_error
      and pf = jwt_platform and now = 5 and g = True]
  have w1: "login wrong_password signed_in_client =
     (\<lparr>call = Login wrong_password, guarded = (\<not> falsy (getAccessToken (auth signed_in_client))),
       rescued = False\<rparr>,
      signed_in_client\<lparr>auth := (auth signed_in_client)\<lparr>posts := posts (auth signed_in_client) @ [LoginPost wrong_password]\<rparr>\<rparr>)"
    and w2: "login_response jwt_platform 5 ?x (Inl server_error) signed_in_client =
     signed_in_client\<lparr>delivered := delivered signed_in_client @ [(Login wrong_password, Rejected server_error)]\<rparr>"
    using a by blast+
  from login_failure[where cr = wrong_password and c = initialClient and e = unauthorized
      and pf = jwt_platform and now = 5]
  have w3: "login wrong_password initialClient =
     (\<lparr>call = Login wrong_password, guarded = (\<not> falsy (getAccessToken (auth initialClient))),
       rescued = False\<rparr>,
      initialClient\<lparr>auth := (auth initialClient)\<lparr>posts := posts (auth initialClient) @ [LoginPost wrong_password]\<rparr>\<rparr>)"
    and w4: "login_response jwt_platform 5 ?y (Inl unauthorized) initialClient =
        initialClient\<lparr>auth := logout (auth initialClient),
          delivered := delivered initialClient @ [(Login wrong_password, Rejected unauthorized)]\<rparr>"
    using b by blast+
  from login_failure[where cr = wrong_password and c = signed_in_client and e = unauthorized
      and pf = jwt_platform and now = 5 and e' = server_error and now' = 6 and r = renewed_response]
  have w5: "login_response jwt_platform 5 ?x (Inl unauthorized) signed_in_client =
        signed_in_client\<lparr>isRefreshing := True, refreshTokenSubject := None,
          auth := (auth signed_in_client)\<lparr>posts := posts (auth signed_in_client) @
                    [RefreshPost (the (getRefreshToken (auth signed_in_client)))]\<rparr>,
          inflight := inflight signed_in_client @
            [\<lparr>call = Refresh (the (getRefreshToken (auth signed_in_client))) (Some (Login wrong_password)),
              guarded = (\<not> falsy (getAccessToken (auth signed_in_client))), rescued = False\<rparr>]\<rparr>"
    and w6: "client_step jwt_platform
         (login_response jwt_platform 5 ?x (Inl unauthorized) signed_in_client)
         (RefreshResult 0 6 (Inl server_error)) =
           signed_in_client\<lparr>isRefreshing := False, refreshTokenSubject := None,
             auth := logout (logout ((auth signed_in_client)\<lparr>posts := posts (auth signed_in_client) @
                       [RefreshPost (the (getRefreshToken (auth signed_in_client)))]\<rparr>)),
             inflight := [],
             delivered := delivered signed_in_client @ [(Login wrong_password, Rejected server_error)]\<rparr>"
    and w7: "client_step jwt_platform
         (login_response jwt_platform 5 ?x (Inl unauthorized) signed_in_client)
         (RefreshResult 0 6 (Inr renewed_response)) =
           signed_in_client\<lparr>isRefreshing := False, refreshTokenSubject := Some (accessToken renewed_response),
             auth := (handleAuthSuccess jwt_platform 6 renewed_response ((auth signed_in_client)\<lparr>posts := posts (auth signed_in_client) @
                        [RefreshPost (the (getRefreshToken (auth signed_in_client)))]\<rparr>))
                     \<lparr>posts := posts (handleAuthSuccess jwt_platform 6 renewed_response ((auth signed_in_client)\<lparr>posts := posts (auth signed_in_client) @
                        [RefreshPost (the (getRefreshToken (auth signed_in_client)))]\<rparr>)) @ [LoginPost wrong_password]\<rparr>,
             inflight := [],
             delivered := delivered signed_in_client @ [(Login wrong_password, Resent (accessToken renewed_response))]\<rparr>"
    using a b h by blast+
  from login_failure[where cr = wrong_password and c = signed_in_client and e = server_error
      and pf = jwt_platform and now = 7]
  have w8: "login_response jwt_platform 7 \<lparr>call = Login wrong_password, guarded = False, rescued = True\<rparr>
       (Inl server_error) signed_in_client =
     signed_in_client\<lparr>isRefreshing := False, auth := handleError server_error (logout (auth signed_in_client)),
       delivered := delivered signed_in_client @ [(Login wrong_password, Rejected server_error)]\<rparr>"
    by blast
  let ?n = "signed_in_client\<lparr>auth := signed_in\<lparr>refresh_token := None\<rparr>\<rparr>"
  have r1: "isRefreshing login_refused" "refreshTokenSubject login_refused = None"
    "waiting login_refused = []"
    by (simp_all add: login_refused_eval signed_in_client_def)
  have r2: "\<not> isRefreshing ?n" "falsy (getRefreshToken (auth ?n))" "delivered ?n = []"
    by (simp_all add: signed_in_client_def getRefreshToken_def falsy_def)
  from login_failure[where cr = wrong_password and c = login_refused and e = unauthorized
      and pf = jwt_platform and now = 6]
  have w9: "login_response jwt_platform 6 ?x (Inl unauthorized) login_refused =
        login_refused\<lparr>waiting := waiting login_refused @ [Login wrong_password]\<rparr>"
    using b r1(1,2) by blast
  from login_failure[where cr = wrong_password and c = ?n and e = unauthorized
      and pf = jwt_platform and now = 5]
  have w10: "login_response jwt_platform 5 ?x (Inl unauthorized) ?n =
        ?n\<lparr>refreshTokenSubject := None, auth := logout (auth ?n),
          delivered := delivered ?n @ [(Login wrong_password, Rejected noRefreshToken)]\<rparr>"
    using b r2(1,2) by blast
  have g14: "waiting (login_response jwt_platform 6 ?x (Inl unauthorized) login_refused) =
      [Login wrong_password]"
    unfolding w9 by (simp add: r1)
  have g15: "delivered (login_response jwt_platform 5 ?x (Inl unauthorized) ?n) =
     [(Login wrong_password, Rejected noRefreshToken)]"
    unfolding w10 by (simp add: signed_in_client_def)
  have g1: "login wrong_password signed_in_client =
     (?x, signed_in_client\<lparr>auth := signed_in\<lparr>posts := posts signed_in @ [LoginPost wrong_password]\<rparr>\<rparr>)"
    unfolding w1 by (simp add: signed_in_client_def signed_in_eval getAccessToken_def falsy_def)
  have g2: "login_response jwt_platform 5 ?x (Inl server_error) signed_in_client =
     signed_in_client\<lparr>delivered := [(Login wrong_password, Rejected server_error)]\<rparr>"
    unfolding w2 by (simp add: signed_in_client_reads)
  have g3: "guarded (fst (login wrong_password initialClient)) = False"
    unfolding w3 by (simp add: initialClient_def initialAuth_def getAccessToken_def falsy_def)
  have g4: "delivered (login_response jwt_platform 5 ?y (Inl unauthorized) initialClient) =
     [(Login wrong_password, Rejected unauthorized)]"
    unfolding w4 by (simp add: initialClient_def)
  have g5: "navigations (auth (login_response jwt_platform 5 ?y (Inl unauthorized) initialClient)) = 1"
    unfolding w4 by (simp add: n initialClient_def initialAuth_def)
  have g6: "delivered (login_response jwt_platform 5 ?x (Inl unauthorized) signed_in_client) = []"
    unfolding w5 by (simp add: signed_in_client_reads)
  have g7: "access_token (auth (login_response jwt_platform 5 ?x (Inl unauthorized) signed_in_client)) =
     Some ''h.eyJleHAiOjEwMDB9.s''"
    unfolding w5 by (simp add: signed_in_client_def signed_in_eval)
  have g8: "delivered (client_step jwt_platform
       (login_response jwt_platform 5 ?x (Inl unauthorized) signed_in_client)
       (RefreshResult 0 6 (Inl server_error))) =
     [(Login wrong_password, Rejected server_error)]"
    unfolding w6 by (simp add: signed_in_client_reads)
  have g9: "navigations (auth (client_step jwt_platform
       (login_response jwt_platform 5 ?x (Inl unauthorized) signed_in_client)
       (RefreshResult 0 6 (Inl server_error)))) = 2"
    unfolding w6 by (simp add: n signed_in_client_def signed_in_eval)
  have g10: "delivered (client_step jwt_platform
       (login_response jwt_platform 5 ?x (Inl unauthorized) signed_in_client)
       (RefreshResult 0 6 (Inr renewed_response))) =
     [(Login wrong_password, Resent ''h.eyJleHAiOjEwMDB9.t'')]"
    unfolding w7 by (simp add: signed_in_client_reads renewed_response_def)
  have g11: "delivered (login_response jwt_platform 7 sent_again (Inl server_error) signed_in_client) =
     [(Login wrong_password, Rejected server_error)]"
    unfolding sent_again_def w8 by (simp add: signed_in_client_reads)
  have g12: "access_token (auth (login_response jwt_platform 7 sent_again (Inl server_error) signed_in_client)) = None"
    unfolding sent_again_def w8 by (simp add: handleError_def a t)
  have g13: "navigations (auth (login_response jwt_platform 7 sent_again (Inl server_error) signed_in_client)) = 1"
    unfolding sent_again_def w8 by (simp add: handleError_def a n signed_in_client_def signed_in_eval)
  show ?thesis
    using a b h g1 g2 g3 g4 g5 g6 g7 g8 g9 g10 g11 g12 g13 g14 g15 r1(1,2) r2(2) by simp
qed

text \<open>
  Claim C10. \<open>activeUploads\<close> is never negative: after every sequence of queue
  operations and HTTP callbacks from the initial service, whatever their order and
  whether or not the task they name is still known, the current counter and every
  counter value pushed to the observers are at least 0.
\<close>

theorem activeUploads_never_negative:
  "0 \<le> activeUploads (queue (run initialService evs)) \<and>
   (\<forall>q \<in> set (emitted (run initialService evs)). 0 \<le> activeUploads q)"
  using nonneg_run [OF nonneg_initial, of evs] by (simp add: nonneg_def)

theorem activeUploads_never_negative_witness:
  "activeUploads (queue (run initialService (take 2 late_failure_run))) = 1 \<and>
   activeUploads (queue (run initialService late_failure_run)) = 0 \<and>
   initialQueue \<in> set (emitted (run initialService late_failure_run)) \<and>
   0 \<le> activeUploads initialQueue"
proof -
  have a: "activeUploads (queue (run initialService (take 2 late_failure_run))) = 1"
    by (simp add: late_failure_run_def upload_prop_defs upload_defs)
  have b: "activeUploads (queue (run initialService late_failure_run)) = 0"
    by (simp add: late_failure_run_def upload_prop_defs upload_defs)
  have c: "initialQueue \<in> set (emitted (run initialService late_failure_run))"
    by (simp add: late_failure_run_def upload_prop_defs upload_defs)
  from activeUploads_never_negative [of late_failure_run] a b c show ?thesis by blast
qed

end

